theory Spec2Isabelle
  imports Main "HOL-Library.Word"
begin

text \<open>
  The command parser of i3, \<open>src/commands_parser.c\<close>: the argument stack,
  \<open>parse_string\<close> and \<open>parse_command\<close> with its state machine over a token table.
  The token table, the call dispatcher \<open>GENERATED_call\<close> and \<open>cmd_criteria_init\<close>
  are defined outside that file and are parameters here. Pointers into the input
  are offsets, the process exit is an error value, and a run of the loop that
  never ends is \<open>None\<close>. Logging (\<open>DLOG\<close>, \<open>ELOG\<close>), the \<open>client\<close> pointer that is
  only passed on, and the allocation and release of memory are left out.
\<close>

section \<open>C strings\<close>

text \<open>
  A \<open>const char *\<close> is a \<open>string\<close> holding the bytes in front of the terminating
  0-byte, together with an offset. Reading at the end of the list yields the
  terminator.
\<close>

abbreviation NUL :: char where "NUL \<equiv> CHR 0x00"
abbreviation TAB :: char where "TAB \<equiv> CHR 0x09"
abbreviation LF :: char where "LF \<equiv> CHR 0x0A"
abbreviation CR :: char where "CR \<equiv> CHR 0x0D"
abbreviation SPC :: char where "SPC \<equiv> CHR 0x20"
abbreviation DQUOTE :: char where "DQUOTE \<equiv> CHR 0x22"
abbreviation SQUOTE :: char where "SQUOTE \<equiv> CHR 0x27"
abbreviation BSLASH :: char where "BSLASH \<equiv> CHR 0x5C"

definition char_at :: "string \<Rightarrow> nat \<Rightarrow> char" where
  "char_at s i = (if i < length s then s ! i else NUL)"

text \<open>\<open>strlen\<close>: the number of bytes in front of the first 0-byte.\<close>

definition strlen :: "string \<Rightarrow> nat" where
  "strlen s = length (takeWhile (\<lambda>c. c \<noteq> NUL) s)"

text \<open>The bytes of \<open>s\<close> from offset \<open>a\<close> up to, not including, offset \<open>b\<close>.\<close>

definition slice :: "string \<Rightarrow> nat \<Rightarrow> nat \<Rightarrow> string" where
  "slice s a b = take (b - a) (drop a s)"

section \<open>parse_string\<close>

text \<open>
  The scan of a quoted value:
  \<^verbatim>\<open>for (; **walk != '\0' && **walk != '"'; (*walk)++)
      if (**walk == '\\' && *(*walk + 1) != '\0') (*walk)++;\<close>
\<close>

function scan_quoted :: "string \<Rightarrow> nat \<Rightarrow> nat" where
  "scan_quoted inp w =
     (if char_at inp w \<noteq> NUL \<and> char_at inp w \<noteq> DQUOTE then
        (if char_at inp w = BSLASH \<and> char_at inp (w + 1) \<noteq> NUL
         then scan_quoted inp (w + 1 + 1)
         else scan_quoted inp (w + 1))
      else w)"
  by pat_completeness auto
termination
  by (relation "measure (\<lambda>(inp, w). Suc (length inp) - w)")
     (auto simp: char_at_def split: if_splits)

text \<open>The scan of an unquoted string: up to \<open>;\<close>, \<open>,\<close>, the end, CR or LF.\<close>

function scan_string :: "string \<Rightarrow> nat \<Rightarrow> nat" where
  "scan_string inp w =
     (if char_at inp w \<noteq> CHR '';'' \<and> char_at inp w \<noteq> CHR '','' \<and>
         char_at inp w \<noteq> NUL \<and> char_at inp w \<noteq> CR \<and> char_at inp w \<noteq> LF
      then scan_string inp (w + 1)
      else w)"
  by pat_completeness auto
termination
  by (relation "measure (\<lambda>(inp, w). length inp - w)")
     (auto simp: char_at_def split: if_splits)

text \<open>The scan of an unquoted word: also stops at a blank, a tab and \<open>]\<close>.\<close>

function scan_word :: "string \<Rightarrow> nat \<Rightarrow> nat" where
  "scan_word inp w =
     (if char_at inp w \<noteq> SPC \<and> char_at inp w \<noteq> TAB \<and>
         char_at inp w \<noteq> CHR '']'' \<and> char_at inp w \<noteq> CHR '','' \<and>
         char_at inp w \<noteq> CHR '';'' \<and> char_at inp w \<noteq> CR \<and>
         char_at inp w \<noteq> LF \<and> char_at inp w \<noteq> NUL
      then scan_word inp (w + 1)
      else w)"
  by pat_completeness auto
termination
  by (relation "measure (\<lambda>(inp, w). length inp - w)")
     (auto simp: char_at_def split: if_splits)

text \<open>
  The copy loop. \<open>str\<close> is the buffer of \<open>walk - beginning + 1\<close> zero bytes that
  \<open>scalloc\<close> returned; \<open>n\<close> is \<open>walk - beginning\<close>.
  \<^verbatim>\<open>for (inpos = 0, outpos = 0; inpos < (*walk - beginning); inpos++, outpos++) {
      if (beginning[inpos] == '\\' &&
          (beginning[inpos + 1] == '"' || beginning[inpos + 1] == '\\'))
          inpos++;
      str[outpos] = beginning[inpos];
  }\<close>
\<close>

function copy_escaped :: "string \<Rightarrow> nat \<Rightarrow> nat \<Rightarrow> nat \<Rightarrow> nat \<Rightarrow> string \<Rightarrow> string" where
  "copy_escaped inp beginning n inpos outpos str =
     (if inpos < n then
        (let inpos' =
           (if char_at inp (beginning + inpos) = BSLASH \<and>
               (char_at inp (beginning + inpos + 1) = DQUOTE \<or>
                char_at inp (beginning + inpos + 1) = BSLASH)
            then inpos + 1 else inpos)
         in copy_escaped inp beginning n (inpos' + 1) (outpos + 1)
              (str[outpos := char_at inp (beginning + inpos')]))
      else str)"
  by pat_completeness auto
termination
  by (relation "measure (\<lambda>(inp, beginning, n, inpos, outpos, str). n - inpos)") auto

text \<open>The C string held by a buffer: its bytes up to the first 0-byte.\<close>

definition c_string :: "string \<Rightarrow> string" where
  "c_string buf = takeWhile (\<lambda>c. c \<noteq> NUL) buf"

text \<open>
  \<open>parse_string\<close> returns the new string (\<open>None\<close> for \<open>NULL\<close>) and the value it
  leaves in \<open>*walk\<close>.
\<close>

definition parse_string :: "string \<Rightarrow> nat \<Rightarrow> bool \<Rightarrow> string option \<times> nat" where
  "parse_string inp walk0 as_word =
     (let (beginning, walk) =
        (if char_at inp walk0 = DQUOTE then (walk0 + 1, scan_quoted inp (walk0 + 1))
         else if \<not> as_word then (walk0, scan_string inp walk0)
         else (walk0, scan_word inp walk0))
      in if walk = beginning then (None, walk)
         else (Some (c_string (copy_escaped inp beginning (walk - beginning) 0 0
                                 (replicate (walk - beginning + 1) NUL))), walk))"

text \<open>
  The escaping rule in the words of the specification: a backslash immediately
  followed by a double quote or a backslash gives the second character alone;
  every other character is copied.
\<close>

fun unescape :: "string \<Rightarrow> string" where
  "unescape [] = []"
| "unescape [c] = [c]"
| "unescape (c # d # rest) =
     (if c = BSLASH \<and> (d = DQUOTE \<or> d = BSLASH) then d # unescape rest
      else c # unescape (d # rest))"


text \<open>Whether a text holds a backslash immediately followed by a double quote or a backslash.\<close>

fun has_escape :: "string \<Rightarrow> bool" where
  "has_escape [] \<longleftrightarrow> False"
| "has_escape [c] \<longleftrightarrow> False"
| "has_escape (c # d # rest) \<longleftrightarrow>
     (c = BSLASH \<and> (d = DQUOTE \<or> d = BSLASH)) \<or> has_escape (d # rest)"

text \<open>
  The bytes the copy loop stores, in the order of \<open>outpos\<close>: the loop of
  \<open>copy_escaped\<close> without the buffer.
\<close>

function emitted :: "string \<Rightarrow> nat \<Rightarrow> nat \<Rightarrow> nat \<Rightarrow> string" where
  "emitted inp beginning n inpos =
     (if inpos < n then
        (let inpos' =
           (if char_at inp (beginning + inpos) = BSLASH \<and>
               (char_at inp (beginning + inpos + 1) = DQUOTE \<or>
                char_at inp (beginning + inpos + 1) = BSLASH)
            then inpos + 1 else inpos)
         in char_at inp (beginning + inpos') # emitted inp beginning n (inpos' + 1))
      else [])"
  by pat_completeness auto
termination
  by (relation "measure (\<lambda>(inp, beginning, n, inpos). n - inpos)") auto

section \<open>The argument stack\<close>

text \<open>
  \<^verbatim>\<open>struct stack_entry { const char *identifier; enum { STACK_STR, STACK_LONG } type;
                       union { char *str; long num; } val; };\<close>
  \<open>None\<close> is the \<open>NULL\<close> identifier of a free slot. \<open>Val_null\<close> is the union with
  all bits zero, as \<open>clear_stack\<close> leaves it. The stack is an array of ten entries.
\<close>

datatype stack_type = STACK_STR | STACK_LONG

datatype stack_val = Val_null | Val_str string | Val_num int

record stack_entry =
  se_identifier :: "string option"
  se_type :: stack_type
  se_val :: stack_val

type_synonym stack = "stack_entry list"

text \<open>\<open>exit(EXIT_FAILURE)\<close> after the message "BUG: commands_parser stack full".\<close>

datatype error = Stack_full

text \<open>The loop of \<open>push_string\<close> from slot \<open>c\<close> on.\<close>

function push_string_from :: "nat \<Rightarrow> stack \<Rightarrow> string \<Rightarrow> string \<Rightarrow> error + stack" where
  "push_string_from c stk identifier str =
     (if c < 10 then
        (if se_identifier (stk ! c) \<noteq> None then push_string_from (c + 1) stk identifier str
         else Inr (stk[c := (stk ! c)\<lparr>se_identifier := Some identifier,
                                      se_val := Val_str str, se_type := STACK_STR\<rparr>]))
      else Inl Stack_full)"
  by pat_completeness auto
termination
  by (relation "measure (\<lambda>(c, stk, identifier, str). 10 - c)") auto

definition push_string :: "stack \<Rightarrow> string \<Rightarrow> string \<Rightarrow> error + stack" where
  "push_string stk identifier str = push_string_from 0 stk identifier str"

function push_long_from :: "nat \<Rightarrow> stack \<Rightarrow> string \<Rightarrow> int \<Rightarrow> error + stack" where
  "push_long_from c stk identifier num =
     (if c < 10 then
        (if se_identifier (stk ! c) \<noteq> None then push_long_from (c + 1) stk identifier num
         else Inr (stk[c := (stk ! c)\<lparr>se_identifier := Some identifier,
                                      se_val := Val_num num, se_type := STACK_LONG\<rparr>]))
      else Inl Stack_full)"
  by pat_completeness auto
termination
  by (relation "measure (\<lambda>(c, stk, identifier, num). 10 - c)") auto

definition push_long :: "stack \<Rightarrow> string \<Rightarrow> int \<Rightarrow> error + stack" where
  "push_long stk identifier num = push_long_from 0 stk identifier num"

text \<open>
  \<open>get_string\<close> returns the union of the first slot whose identifier compares
  equal, read through its \<open>str\<close> member, and \<open>NULL\<close> (\<open>Val_null\<close>) when the
  search reaches a free slot or the end of the array.
\<close>

function get_string_from :: "nat \<Rightarrow> stack \<Rightarrow> string \<Rightarrow> stack_val" where
  "get_string_from c stk identifier =
     (if c < 10 then
        (case se_identifier (stk ! c) of
           None \<Rightarrow> Val_null
         | Some i \<Rightarrow> if identifier = i then se_val (stk ! c)
                     else get_string_from (c + 1) stk identifier)
      else Val_null)"
  by pat_completeness auto
termination
  by (relation "measure (\<lambda>(c, stk, identifier). 10 - c)") auto

definition get_string :: "stack \<Rightarrow> string \<Rightarrow> stack_val" where
  "get_string stk identifier = get_string_from 0 stk identifier"

text \<open>\<open>clear_stack\<close> frees the strings and zeroes identifier and value; the type stays.\<close>

definition clear_stack :: "stack \<Rightarrow> stack" where
  "clear_stack stk = map (\<lambda>e. e\<lparr>se_identifier := None, se_val := Val_null\<rparr>) stk"

text \<open>The stack as a zero-initialised static holds it.\<close>

definition zero_stack :: stack where
  "zero_stack = replicate 10 \<lparr>se_identifier = None, se_type = STACK_STR, se_val = Val_null\<rparr>"


section \<open>Library functions\<close>

text \<open>\<open>tolower\<close> in the C locale.\<close>

definition tolower :: "char \<Rightarrow> char" where
  "tolower c =
     (if (65::nat) \<le> of_char c \<and> of_char c \<le> (90::nat)
      then char_of (of_char c + (32::nat)) else c)"

text \<open>
  \<open>strncasecmp\<close>: compares at most \<open>n\<close> bytes without regard to case and stops
  behind a 0-byte common to both strings.
\<close>

fun strncasecmp :: "string \<Rightarrow> string \<Rightarrow> nat \<Rightarrow> int" where
  "strncasecmp s1 s2 0 = 0"
| "strncasecmp s1 s2 (Suc n) =
     (let c1 = tolower (char_at s1 0); c2 = tolower (char_at s2 0)
      in if c1 \<noteq> c2 then int (of_char c1) - int (of_char c2)
         else if c1 = NUL then 0
         else strncasecmp (tl s1) (tl s2) n)"

text \<open>
  \<open>strtol\<close> with base 10, as ISO C describes it, for a 64-bit \<open>long\<close>: white space
  is skipped, one sign is accepted, the digits that follow are converted. Without
  a digit nothing is converted and the end pointer is the start pointer. A value
  out of range is clamped and \<open>errno\<close> becomes \<open>ERANGE\<close>.
\<close>

datatype errno = Errno_0 | ERANGE

definition LONG_MAX :: int where "LONG_MAX = 2 ^ 63 - 1"
definition LONG_MIN :: int where "LONG_MIN = - (2 ^ 63)"

definition isspace :: "char \<Rightarrow> bool" where
  "isspace c \<longleftrightarrow> c = SPC \<or> c = TAB \<or> c = LF \<or> c = CHR 0x0B \<or> c = CHR 0x0C \<or> c = CR"

definition isdigit :: "char \<Rightarrow> bool" where
  "isdigit c \<longleftrightarrow> (48::nat) \<le> of_char c \<and> of_char c \<le> (57::nat)"

function skip_space :: "string \<Rightarrow> nat \<Rightarrow> nat" where
  "skip_space s i = (if isspace (char_at s i) then skip_space s (i + 1) else i)"
  by pat_completeness auto
termination
  by (relation "measure (\<lambda>(s, i). length s - i)")
     (auto simp: char_at_def isspace_def split: if_splits)

function scan_digits :: "string \<Rightarrow> nat \<Rightarrow> int \<Rightarrow> nat \<times> int" where
  "scan_digits s i acc =
     (if isdigit (char_at s i)
      then scan_digits s (i + 1) (acc * 10 + (int (of_char (char_at s i)) - 48))
      else (i, acc))"
  by pat_completeness auto
termination
  by (relation "measure (\<lambda>(s, i, acc). length s - i)")
     (auto simp: char_at_def isdigit_def split: if_splits)

text \<open>\<open>strtol s nptr\<close> returns the value, the end pointer and \<open>errno\<close>.\<close>

definition strtol :: "string \<Rightarrow> nat \<Rightarrow> int \<times> nat \<times> errno" where
  "strtol s nptr =
     (let i = skip_space s nptr;
          negative = (char_at s i = CHR ''-'');
          j = (if char_at s i = CHR ''-'' \<or> char_at s i = CHR ''+'' then i + 1 else i);
          (e, v) = scan_digits s j 0
      in if e = j then (0, nptr, Errno_0)
         else if negative then
           (if - v < LONG_MIN then (LONG_MIN, e, ERANGE) else (- v, e, Errno_0))
         else
           (if LONG_MAX < v then (LONG_MAX, e, ERANGE) else (v, e, Errno_0)))"

section \<open>Tokens, parser state and external collaborators\<close>

text \<open>
  \<open>cmdp_state\<close> is the enumeration of \<open>GENERATED_command_enums.h\<close>: \<open>INITIAL\<close>, the
  marker \<open>__CALL\<close> (written \<open>CALL\<close>) and the other states.
\<close>

datatype cmdp_state = INITIAL | CALL | State nat

record cmdp_token =
  tk_name :: string
  tk_identifier :: "string option"
  tk_next_state :: cmdp_state
  tk_call_identifier :: "16 word"

text \<open>
  \<open>struct CommandResultIR\<close>, with the fields this file touches. \<open>ir_json_gen\<close> tells
  whether the generator pointer is not \<open>NULL\<close>.
\<close>

record CommandResultIR =
  ir_json_gen :: bool
  ir_next_state :: cmdp_state
  ir_needs_tree_render :: bool
  ir_execution_toggled :: bool

record CommandResult =
  parse_error :: bool
  error_message :: "string option"
  needs_tree_render :: bool

text \<open>
  The calls that leave this file, in the order they are made: the calls of the
  yajl generator (made only with a generator), \<open>cmd_criteria_init\<close> and
  \<open>GENERATED_call\<close> with the call identifier, the stack it was given, and the
  \<open>next_state\<close> and \<open>needs_tree_render\<close> it left in \<open>subcommand_output\<close>.
\<close>

datatype yajl_call =
    Yajl_array_open | Yajl_array_close | Yajl_map_open | Yajl_map_close
  | Yajl_bool bool | Yajl_string string

datatype ext_call =
    Criteria_init
  | Generated_call "16 word" stack cmdp_state bool
  | Yajl yajl_call

text \<open>
  The token table of \<open>GENERATED_command_tokens.h\<close> and the two functions defined
  elsewhere are parameters. \<open>'w\<close> is everything they read and write outside this
  file, \<open>current_match\<close> included.
\<close>

record 'w externals =
  tokens :: "cmdp_state \<Rightarrow> cmdp_token list"
  GENERATED_call :: "'w \<Rightarrow> stack \<Rightarrow> 16 word \<Rightarrow> CommandResultIR \<Rightarrow> 'w \<times> CommandResultIR"
  cmd_criteria_init :: "'w \<Rightarrow> CommandResultIR \<Rightarrow> 'w \<times> CommandResultIR"

text \<open>
  The statics of the file (\<open>state\<close>, \<open>stack\<close>, \<open>subcommand_output\<close>,
  \<open>command_output\<close>), the locals of \<open>parse_command\<close> that live across its loop
  (\<open>walk\<close> as an offset into \<open>input\<close>, \<open>result\<close>, and \<open>position\<close> once it is built),
  the outside world, and the calls that the current call of \<open>parse_command\<close>
  has made so far.
\<close>

record 'w parser =
  state :: cmdp_state
  stack :: stack
  subcommand_output :: CommandResultIR
  command_output :: CommandResultIR
  walk :: nat
  result :: CommandResult
  position :: "string option"
  world :: 'w
  calls :: "ext_call list"

text \<open>The macros \<open>y(x, ...)\<close> and \<open>ystr(str)\<close>.\<close>

definition yajl_gen :: "yajl_call \<Rightarrow> 'w parser \<Rightarrow> 'w parser" where
  "yajl_gen c p = (if ir_json_gen (command_output p) then p\<lparr>calls := calls p @ [Yajl c]\<rparr> else p)"

definition call_criteria_init :: "'w externals \<Rightarrow> 'w parser \<Rightarrow> 'w parser" where
  "call_criteria_init ext p =
     (let (w, ir) = cmd_criteria_init ext (world p) (subcommand_output p)
      in p\<lparr>world := w, subcommand_output := ir, calls := calls p @ [Criteria_init]\<rparr>)"

definition next_state :: "'w externals \<Rightarrow> cmdp_token \<Rightarrow> 'w parser \<Rightarrow> 'w parser" where
  "next_state ext token p =
     (if tk_next_state token = CALL then
        (let sub = (subcommand_output p)\<lparr>ir_json_gen := ir_json_gen (command_output p),
                                          ir_needs_tree_render := False\<rparr>;
             (w, sub') = GENERATED_call ext (world p) (stack p) (tk_call_identifier token) sub;
             p1 = p\<lparr>world := w, subcommand_output := sub',
                    calls := calls p @ [Generated_call (tk_call_identifier token) (stack p)
                                          (ir_next_state sub') (ir_needs_tree_render sub')],
                    state := ir_next_state sub'\<rparr>;
             p2 = (if ir_needs_tree_render sub'
                   then p1\<lparr>command_output := (command_output p1)\<lparr>ir_needs_tree_render := True\<rparr>\<rparr>
                   else p1)
         in p2\<lparr>stack := clear_stack (stack p2)\<rparr>)
      else
        (let p1 = p\<lparr>state := tk_next_state token\<rparr>
         in if state p1 = INITIAL then p1\<lparr>stack := clear_stack (stack p1)\<rparr> else p1))"


text \<open>What the handler of a \<open>__CALL\<close> token leaves in \<open>subcommand_output\<close>.\<close>

definition handler_output :: "'w externals \<Rightarrow> cmdp_token \<Rightarrow> 'w parser \<Rightarrow> CommandResultIR" where
  "handler_output ext token p =
     snd (GENERATED_call ext (world p) (stack p) (tk_call_identifier token)
            ((subcommand_output p)\<lparr>ir_json_gen := ir_json_gen (command_output p),
                                    ir_needs_tree_render := False\<rparr>))"

section \<open>parse_command\<close>

text \<open>Pushing the capture of a token that has an identifier.\<close>

definition push_capture :: "cmdp_token \<Rightarrow> (string \<Rightarrow> error + stack) \<Rightarrow> stack \<Rightarrow> error + stack" where
  "push_capture token push stk =
     (case tk_identifier token of None \<Rightarrow> Inr stk | Some identifier \<Rightarrow> push identifier)"

text \<open>
  One round of the loop over the tokens of the current state. The result is
  \<open>token_handled\<close> and the parser; \<open>True\<close> stands for the \<open>break\<close>. A token that is
  no literal and whose name is none of the four known ones matches nothing. A
  string or word token that did not match is compared with \<open>"end"\<close> next, which it
  is not, so the next token is tried with the cursor \<open>parse_string\<close> left.
\<close>

definition try_token :: "'w externals \<Rightarrow> string \<Rightarrow> cmdp_token \<Rightarrow> 'w parser \<Rightarrow> error + (bool \<times> 'w parser)" where
  "try_token ext input token p =
     (if char_at (tk_name token) 0 = SQUOTE then
        (let literal = tl (tk_name token) in
         if strncasecmp (drop (walk p) input) literal (length (tk_name token) - 1) = 0 then
           (case push_capture token (\<lambda>i. push_string (stack p) i literal) (stack p) of
              Inl e \<Rightarrow> Inl e
            | Inr stk \<Rightarrow>
                Inr (True, next_state ext token
                             (p\<lparr>stack := stk, walk := walk p + (length (tk_name token) - 1)\<rparr>)))
         else Inr (False, p))
      else if tk_name token = ''number'' then
        (let (num, end, err) = strtol input (walk p) in
         if (err = ERANGE \<and> (num = LONG_MIN \<or> num = LONG_MAX)) \<or> (err \<noteq> Errno_0 \<and> num = 0)
         then Inr (False, p)
         else if end = walk p then Inr (False, p)
         else
           (case push_capture token (\<lambda>i. push_long (stack p) i num) (stack p) of
              Inl e \<Rightarrow> Inl e
            | Inr stk \<Rightarrow> Inr (True, next_state ext token (p\<lparr>stack := stk, walk := end\<rparr>))))
      else if tk_name token = ''string'' \<or> tk_name token = ''word'' then
        (case parse_string input (walk p) (char_at (tk_name token) 0 \<noteq> CHR ''s'') of
           (Some str, w) \<Rightarrow>
             (case push_capture token (\<lambda>i. push_string (stack p) i str) (stack p) of
                Inl e \<Rightarrow> Inl e
              | Inr stk \<Rightarrow>
                  Inr (True, next_state ext token
                               (p\<lparr>stack := stk,
                                  walk := (if char_at input w = DQUOTE then w + 1 else w)\<rparr>)))
         | (None, w) \<Rightarrow> Inr (False, p\<lparr>walk := w\<rparr>))
      else if tk_name token = ''end'' then
        (if char_at input (walk p) = NUL \<or> char_at input (walk p) = CHR '','' \<or>
            char_at input (walk p) = CHR '';''
         then
           (let p1 = next_state ext token p;
                p2 = (if char_at input (walk p1) = NUL \<or> char_at input (walk p1) = CHR '';''
                      then call_criteria_init ext p1 else p1)
            in Inr (True, p2\<lparr>walk := walk p2 + 1\<rparr>))
         else Inr (False, p))
      else Inr (False, p))"

text \<open>\<^verbatim>\<open>for (c = 0; c < ptr->n; c++)\<close> over the rest of the token array.\<close>

fun try_tokens :: "'w externals \<Rightarrow> string \<Rightarrow> cmdp_token list \<Rightarrow> 'w parser \<Rightarrow> error + (bool \<times> 'w parser)" where
  "try_tokens ext input [] p = Inr (False, p)"
| "try_tokens ext input (token # rest) p =
     (case try_token ext input token p of
        Inl e \<Rightarrow> Inl e
      | Inr (handled, p') \<Rightarrow>
          if handled then Inr (True, p') else try_tokens ext input rest p')"

text \<open>Skipping blanks, tabs, CR and LF in front of every token.\<close>

function skip_whitespace :: "string \<Rightarrow> nat \<Rightarrow> nat" where
  "skip_whitespace input w =
     (if (char_at input w = SPC \<or> char_at input w = TAB \<or>
          char_at input w = CR \<or> char_at input w = LF) \<and> char_at input w \<noteq> NUL
      then skip_whitespace input (w + 1)
      else w)"
  by pat_completeness auto
termination
  by (relation "measure (\<lambda>(input, w). length input - w)")
     (auto simp: char_at_def split: if_splits)

text \<open>
  The names of the tokens of a state as the error message lists them: the second
  loop of the failure branch, writing through \<open>tokenwalk\<close>. A separator follows
  every token but the last (\<open>c < ptr->n - 1\<close>).
\<close>

fun possible_tokens :: "cmdp_token list \<Rightarrow> string" where
  "possible_tokens [] = []"
| "possible_tokens (token # rest) =
     (if char_at (tk_name token) 0 = SQUOTE
      then [SQUOTE] @ tl (tk_name token) @ [SQUOTE]
      else ''<'' @ tk_name token @ ''>'') @
     (if rest \<noteq> [] then '', '' else []) @
     possible_tokens rest"

text \<open>The reply to a parse error, as the calls on the generator.\<close>

definition error_reply :: "string \<Rightarrow> string \<Rightarrow> string \<Rightarrow> yajl_call list" where
  "error_reply errormessage input pos =
     [Yajl_map_open,
      Yajl_string ''success'', Yajl_bool False,
      Yajl_string ''parse_error'', Yajl_bool True,
      Yajl_string ''error'', Yajl_string errormessage,
      Yajl_string ''input'', Yajl_string (c_string input),
      Yajl_string ''errorposition'', Yajl_string pos,
      Yajl_map_close]"

text \<open>
  The failure branch (\<open>!token_handled\<close>): message, caret line, the reply on the
  generator, and the stack cleared.
\<close>

definition syntax_error :: "string \<Rightarrow> cmdp_token list \<Rightarrow> 'w parser \<Rightarrow> 'w parser" where
  "syntax_error input ptr p =
     (let errormessage = ''Expected one of these tokens: '' @ possible_tokens ptr;
          pos = map (\<lambda>i. if walk p \<le> i then CHR ''^'' else SPC) [0..<strlen input];
          p1 = p\<lparr>result := (result p)\<lparr>parse_error := True, error_message := Some errormessage\<rparr>,
                 position := Some pos\<rparr>;
          p2 = fold yajl_gen (error_reply errormessage input pos) p1
      in p2\<lparr>stack := clear_stack (stack p2)\<rparr>)"

text \<open>
  The body of the \<open>while\<close> loop: \<open>Inl\<close> when the process exits, otherwise whether
  the loop goes on (\<open>True\<close>) or was left by \<open>break\<close> (\<open>False\<close>), and the parser.
\<close>

definition loop_body :: "'w externals \<Rightarrow> string \<Rightarrow> 'w parser \<Rightarrow> error + (bool \<times> 'w parser)" where
  "loop_body ext input p =
     (let p1 = p\<lparr>walk := skip_whitespace input (walk p)\<rparr>;
          ptr = tokens ext (state p1)
      in case try_tokens ext input ptr p1 of
           Inl e \<Rightarrow> Inl e
         | Inr (token_handled, p2) \<Rightarrow>
             if token_handled then Inr (True, p2)
             else Inr (False, syntax_error input ptr p2))"

text \<open>
  \<^verbatim>\<open>while ((size_t)(walk - input) <= len)\<close>. A token can match without consuming
  anything, so the loop need not end: \<open>None\<close> is the run that never returns.
\<close>

partial_function (option) parse_loop :: "'w externals \<Rightarrow> string \<Rightarrow> 'w parser \<Rightarrow> (error + 'w parser) option" where
  "parse_loop ext input p =
     (if walk p \<le> strlen input then
        (case loop_body ext input p of
           Inl e \<Rightarrow> Some (Inl e)
         | Inr (continue, p') \<Rightarrow> if continue then parse_loop ext input p' else Some (Inr p'))
      else Some (Inr p))"

text \<open>
  \<open>parse_command input gen\<close>, started with the statics and the world as \<open>p\<close> holds
  them (build without \<open>TEST_PARSER\<close>): the statements in front of the loop, the
  loop, and the statements behind it. The returned \<open>result\<close> is in the final
  parser.
\<close>

definition parse_command_start :: "'w externals \<Rightarrow> bool \<Rightarrow> 'w parser \<Rightarrow> 'w parser" where
  "parse_command_start ext gen p =
     (let p1 = p\<lparr>state := INITIAL,
                 result := \<lparr>parse_error = False, error_message = None, needs_tree_render = False\<rparr>,
                 position := None, calls := []\<rparr>;
          p2 = p1\<lparr>subcommand_output := (subcommand_output p1)\<lparr>ir_execution_toggled := False\<rparr>\<rparr>;
          p3 = p2\<lparr>command_output := (command_output p2)\<lparr>ir_json_gen := gen\<rparr>\<rparr>;
          p4 = yajl_gen Yajl_array_open p3;
          p5 = p4\<lparr>command_output := (command_output p4)\<lparr>ir_needs_tree_render := False\<rparr>\<rparr>
      in call_criteria_init ext (p5\<lparr>walk := 0\<rparr>))"

definition parse_command_finish :: "'w parser \<Rightarrow> 'w parser" where
  "parse_command_finish p =
     (let p1 = yajl_gen Yajl_array_close p
      in p1\<lparr>result := (result p1)\<lparr>needs_tree_render :=
                            ir_needs_tree_render (command_output p1)\<rparr>\<rparr>)"

definition parse_command :: "'w externals \<Rightarrow> string \<Rightarrow> bool \<Rightarrow> 'w parser \<Rightarrow> (error + 'w parser) option" where
  "parse_command ext input gen p =
     (case parse_loop ext input (parse_command_start ext gen p) of
        None \<Rightarrow> None
      | Some (Inl e) \<Rightarrow> Some (Inl e)
      | Some (Inr p') \<Rightarrow> Some (Inr (parse_command_finish p')))"

text \<open>
  The parsers at the head of the loop in the run that starts at \<open>p\<close>: \<open>p\<close> itself,
  and the parser a round of the loop that goes on leaves.
\<close>

inductive loop_reaches :: "'w externals \<Rightarrow> string \<Rightarrow> 'w parser \<Rightarrow> 'w parser \<Rightarrow> bool"
  for ext :: "'w externals" and input :: string and p :: "'w parser" where
  start: "loop_reaches ext input p p"
| round: "loop_reaches ext input p q \<Longrightarrow> walk q \<le> strlen input \<Longrightarrow>
          loop_body ext input q = Inr (True, q') \<Longrightarrow> loop_reaches ext input p q'"

code_pred loop_reaches .

text \<open>
  The token that handles a round of the loop, with the offset at which its
  attempt began: the first token in table order whose attempt is handled.
\<close>

fun handled_by :: "'w externals \<Rightarrow> string \<Rightarrow> cmdp_token list \<Rightarrow> 'w parser \<Rightarrow> (cmdp_token \<times> nat) option" where
  "handled_by ext input [] p = None"
| "handled_by ext input (token # rest) p =
     (case try_token ext input token p of
        Inl e \<Rightarrow> None
      | Inr (handled, p') \<Rightarrow>
          if handled then Some (token, walk p) else handled_by ext input rest p')"

text \<open>
  The run of the loop from \<open>p\<close> to the loop head \<open>q\<close>, with the tokens that handled
  its rounds and the offsets where they matched, in the order of the rounds.
\<close>

inductive run_trace :: "'w externals \<Rightarrow> string \<Rightarrow> 'w parser \<Rightarrow> 'w parser \<Rightarrow> (cmdp_token \<times> nat) list \<Rightarrow> bool"
  for ext :: "'w externals" and input :: string and p :: "'w parser" where
  start: "run_trace ext input p p []"
| round: "run_trace ext input p q tr \<Longrightarrow> walk q \<le> strlen input \<Longrightarrow>
          loop_body ext input q = Inr (True, q') \<Longrightarrow>
          handled_by ext input (tokens ext (state q))
            (q\<lparr>walk := skip_whitespace input (walk q)\<rparr>) = Some tw \<Longrightarrow>
          run_trace ext input p q' (tr @ [tw])"

code_pred run_trace .

text \<open>
  The loop ends at the head \<open>q\<close> and leaves \<open>pe\<close>: the cursor is behind the
  terminating 0-byte, or the round at \<open>q\<close> is left by \<open>break\<close> after a syntax error.
\<close>

definition loop_ends :: "'w externals \<Rightarrow> string \<Rightarrow> 'w parser \<Rightarrow> 'w parser \<Rightarrow> bool" where
  "loop_ends ext input q pe \<longleftrightarrow>
     (if walk q \<le> strlen input then loop_body ext input q = Inr (False, pe) else pe = q)"

section \<open>Notions of the specification\<close>




text \<open>The caret line: \<open>len\<close> characters, blanks in front of offset \<open>off\<close>, carets from there on.\<close>

definition caret_line :: "nat \<Rightarrow> nat \<Rightarrow> string" where
  "caret_line len off = replicate (min off len) SPC @ replicate (len - off) (CHR ''^'')"

text \<open>A sequence of pushes on the stack, stopping when the process exits.\<close>

datatype capture = Push_string string string | Push_long string int

fun capture_name :: "capture \<Rightarrow> string" where
  "capture_name (Push_string identifier str) = identifier"
| "capture_name (Push_long identifier num) = identifier"

fun capture_entry :: "capture \<Rightarrow> stack_entry" where
  "capture_entry (Push_string identifier str) =
     \<lparr>se_identifier = Some identifier, se_type = STACK_STR, se_val = Val_str str\<rparr>"
| "capture_entry (Push_long identifier num) =
     \<lparr>se_identifier = Some identifier, se_type = STACK_LONG, se_val = Val_num num\<rparr>"

fun push :: "stack \<Rightarrow> capture \<Rightarrow> error + stack" where
  "push stk (Push_string identifier str) = push_string stk identifier str"
| "push stk (Push_long identifier num) = push_long stk identifier num"

fun pushes :: "stack \<Rightarrow> capture list \<Rightarrow> error + stack" where
  "pushes stk [] = Inr stk"
| "pushes stk (c # cs) = (case push stk c of Inl e \<Rightarrow> Inl e | Inr stk' \<Rightarrow> pushes stk' cs)"

text \<open>The names of the occupied slots, lowest index first.\<close>

definition occupied_names :: "stack \<Rightarrow> string list" where
  "occupied_names stk = List.map_filter se_identifier stk"

text \<open>A slot is free when its identifier is \<open>NULL\<close>.\<close>

definition free_slot :: "stack \<Rightarrow> nat \<Rightarrow> bool" where
  "free_slot stk i \<longleftrightarrow> se_identifier (stk ! i) = None"

text \<open>The number of selection-context resets and the flags the dispatches returned.\<close>

definition criteria_inits :: "ext_call list \<Rightarrow> nat" where
  "criteria_inits cs = length (filter (\<lambda>c. c = Criteria_init) cs)"

fun dispatch_flag :: "ext_call \<Rightarrow> bool option" where
  "dispatch_flag (Generated_call c stk ns flag) = Some flag"
| "dispatch_flag Criteria_init = None"
| "dispatch_flag (Yajl v) = None"

definition dispatch_flags :: "ext_call list \<Rightarrow> bool list" where
  "dispatch_flags cs = List.map_filter dispatch_flag cs"


text \<open>
  The rounds of a run in which an \<open>end\<close> token matched the end of the input or a
  semicolon, and those in which an \<open>end\<close> token matched at a given offset.
\<close>

definition end_resets :: "string \<Rightarrow> (cmdp_token \<times> nat) list \<Rightarrow> nat" where
  "end_resets input tr =
     length (filter (\<lambda>(t, w). tk_name t = ''end'' \<and>
                      (char_at input w = NUL \<or> char_at input w = CHR '';'')) tr)"

definition end_at :: "nat \<Rightarrow> (cmdp_token \<times> nat) list \<Rightarrow> nat" where
  "end_at k tr = length (filter (\<lambda>(t, w). tk_name t = ''end'' \<and> w = k) tr)"

text \<open>
  What the logged calls do to the world and to \<open>subcommand_output\<close>, one after the
  other: \<open>cmd_criteria_init\<close> and \<open>GENERATED_call\<close> as \<open>next_state\<close> calls it; the
  generator is no part of the world.
\<close>

fun replay_call :: "'w externals \<Rightarrow> bool \<Rightarrow> ext_call \<Rightarrow> 'w \<times> CommandResultIR \<Rightarrow> 'w \<times> CommandResultIR" where
  "replay_call ext gen Criteria_init (w, ir) = cmd_criteria_init ext w ir"
| "replay_call ext gen (Generated_call c stk ns flag) (w, ir) =
     GENERATED_call ext w stk c (ir\<lparr>ir_json_gen := gen, ir_needs_tree_render := False\<rparr>)"
| "replay_call ext gen (Yajl v) (w, ir) = (w, ir)"

definition replay :: "'w externals \<Rightarrow> bool \<Rightarrow> ext_call list \<Rightarrow> 'w \<times> CommandResultIR \<Rightarrow> 'w \<times> CommandResultIR" where
  "replay ext gen cs s = fold (replay_call ext gen) cs s"

text \<open>
  The world and \<open>subcommand_output\<close> of a parser are what the calls it has logged
  make of \<open>s\<close>, and the generator of \<open>command_output\<close> is the one of the call.
\<close>

definition world_follows_calls :: "'w externals \<Rightarrow> bool \<Rightarrow> 'w \<times> CommandResultIR \<Rightarrow> 'w parser \<Rightarrow> bool" where
  "world_follows_calls ext gen s p \<longleftrightarrow>
     (world p, subcommand_output p) = replay ext gen (calls p) s \<and>
     ir_json_gen (command_output p) = gen"

section \<open>A sample token table\<close>

text \<open>
  The \<open>move\<close> command as \<open>parser-specs/commands.spec\<close> of i3 describes it: \<open>move\<close>,
  a direction that is captured, and the end of the command, which calls the
  handler. The handler asks for a tree render and returns to \<open>INITIAL\<close>. The
  world of the sample is the number of times \<open>cmd_criteria_init\<close> has run.
\<close>

definition tok_move :: cmdp_token where
  "tok_move = \<lparr>tk_name = SQUOTE # ''move'', tk_identifier = None, tk_next_state = State 1,
                tk_call_identifier = 0\<rparr>"

definition tok_end :: cmdp_token where
  "tok_end = \<lparr>tk_name = ''end'', tk_identifier = None, tk_next_state = INITIAL,
               tk_call_identifier = 0\<rparr>"

definition tok_left :: cmdp_token where
  "tok_left = \<lparr>tk_name = SQUOTE # ''left'', tk_identifier = Some ''direction'',
                tk_next_state = State 2, tk_call_identifier = 0\<rparr>"

definition tok_right :: cmdp_token where
  "tok_right = \<lparr>tk_name = SQUOTE # ''right'', tk_identifier = Some ''direction'',
                 tk_next_state = State 2, tk_call_identifier = 0\<rparr>"

definition tok_end_call :: cmdp_token where
  "tok_end_call = \<lparr>tk_name = ''end'', tk_identifier = None, tk_next_state = CALL,
                    tk_call_identifier = 7\<rparr>"

definition move_tokens :: "cmdp_state \<Rightarrow> cmdp_token list" where
  "move_tokens s =
     (if s = INITIAL then [tok_move, tok_end]
      else if s = State 1 then [tok_left, tok_right]
      else if s = State 2 then [tok_end_call]
      else [])"

definition move_ext :: "nat externals" where
  "move_ext =
     \<lparr>tokens = move_tokens,
      GENERATED_call = (\<lambda>w stk c ir. (w, ir\<lparr>ir_next_state := INITIAL, ir_needs_tree_render := True\<rparr>)),
      cmd_criteria_init = (\<lambda>w ir. (Suc w, ir))\<rparr>"


text \<open>A table with one state that takes a word or the end of the command.\<close>

definition tok_word :: cmdp_token where
  "tok_word = \<lparr>tk_name = ''word'', tk_identifier = Some ''name'', tk_next_state = INITIAL,
                tk_call_identifier = 0\<rparr>"

definition word_ext :: "nat externals" where
  "word_ext = move_ext\<lparr>tokens := (\<lambda>s. [tok_word, tok_end])\<rparr>"

text \<open>The statics before the first call of \<open>parse_command\<close>: all zero.\<close>

definition parser0 :: "nat parser" where
  "parser0 =
     \<lparr>state = INITIAL, stack = zero_stack,
      subcommand_output = \<lparr>ir_json_gen = False, ir_next_state = INITIAL,
                            ir_needs_tree_render = False, ir_execution_toggled = False\<rparr>,
      command_output = \<lparr>ir_json_gen = False, ir_next_state = INITIAL,
                         ir_needs_tree_render = False, ir_execution_toggled = False\<rparr>,
      walk = 0,
      result = \<lparr>parse_error = False, error_message = None, needs_tree_render = False\<rparr>,
      position = None, world = 0, calls = []\<rparr>"

declare scan_quoted.simps [simp del] scan_string.simps [simp del] scan_word.simps [simp del]
declare copy_escaped.simps [simp del] skip_whitespace.simps [simp del]
declare push_string_from.simps [simp del] push_long_from.simps [simp del]
declare get_string_from.simps [simp del] skip_space.simps [simp del] scan_digits.simps [simp del]
declare parse_loop.simps [code]
declare emitted.simps [simp del]

section \<open>Properties of parse_string\<close>

lemma unescape_Cons_plain:
  "\<not> (c = BSLASH \<and> xs \<noteq> [] \<and> (hd xs = DQUOTE \<or> hd xs = BSLASH)) \<Longrightarrow>
   unescape (c # xs) = c # unescape xs"
  by (cases xs) auto

lemma unescape_length: "length (unescape xs) \<le> length xs"
  by (induction xs rule: unescape.induct) auto

lemma unescape_id_iff: "unescape xs = xs \<longleftrightarrow> \<not> has_escape xs"
proof (induction xs rule: unescape.induct)
  case (3 c d rest)
  show ?case
  proof (cases "c = BSLASH \<and> (d = DQUOTE \<or> d = BSLASH)")
    case True
    have "length (unescape (c # d # rest)) < length (c # d # rest)"
      using True unescape_length[of rest] by auto
    then have "unescape (c # d # rest) \<noteq> c # d # rest" by (metis less_irrefl)
    then show ?thesis using True by auto
  next
    case False
    then show ?thesis using 3 by auto
  qed
qed simp_all

lemma char_at_nonNUL_lt: "char_at inp i \<noteq> NUL \<Longrightarrow> i < length inp"
  by (simp add: char_at_def split: if_splits)

lemma slice_Cons:
  "a < b \<Longrightarrow> a < length inp \<Longrightarrow> slice inp a b = char_at inp a # slice inp (Suc a) b"
  by (simp add: slice_def char_at_def Cons_nth_drop_Suc[symmetric] Suc_diff_le take_Cons')

lemma slice_empty [simp]: "slice inp a a = []"
  by (simp add: slice_def)

subsection \<open>The buffer holds the emitted bytes\<close>

lemma emitted_done: "\<not> inpos < n \<Longrightarrow> emitted inp b n inpos = []"
  by (subst emitted.simps) simp

lemma emitted_esc:
  "inpos < n \<Longrightarrow> char_at inp (b + inpos) = BSLASH \<Longrightarrow>
   char_at inp (b + inpos + 1) = DQUOTE \<or> char_at inp (b + inpos + 1) = BSLASH \<Longrightarrow>
   emitted inp b n inpos = char_at inp (b + inpos + 1) # emitted inp b n (inpos + 1 + 1)"
  by (subst emitted.simps) (auto simp: Let_def add.assoc)

lemma emitted_plain:
  "inpos < n \<Longrightarrow>
   \<not> (char_at inp (b + inpos) = BSLASH \<and>
      (char_at inp (b + inpos + 1) = DQUOTE \<or> char_at inp (b + inpos + 1) = BSLASH)) \<Longrightarrow>
   emitted inp b n inpos = char_at inp (b + inpos) # emitted inp b n (inpos + 1)"
  by (subst emitted.simps) (auto simp: Let_def add.assoc)

lemma copy_escaped_emitted:
  "outpos + (n - inpos) \<le> length str \<Longrightarrow>
   copy_escaped inp b n inpos outpos str =
     take outpos str @ emitted inp b n inpos @
     drop (outpos + length (emitted inp b n inpos)) str"
proof (induction inp b n inpos outpos str rule: copy_escaped.induct)
  case (1 inp b n inpos outpos str)
  show ?case
  proof (cases "inpos < n")
    case False
    then show ?thesis
      by (subst copy_escaped.simps) (simp add: emitted_done)
  next
    case True
    define inpos' where "inpos' =
           (if char_at inp (b + inpos) = BSLASH \<and>
               (char_at inp (b + inpos + 1) = DQUOTE \<or>
                char_at inp (b + inpos + 1) = BSLASH)
            then inpos + 1 else inpos)"
    define c where "c = char_at inp (b + inpos')"
    have ge: "inpos \<le> inpos'" by (simp add: inpos'_def)
    have lt: "outpos < length str" using True 1(2) by simp
    have pre: "outpos + 1 + (n - (inpos' + 1)) \<le> length (str[outpos := c])"
      using True 1(2) ge by simp
    have IH: "copy_escaped inp b n (inpos' + 1) (outpos + 1) (str[outpos := c]) =
      take (outpos + 1) (str[outpos := c]) @ emitted inp b n (inpos' + 1) @
      drop (outpos + 1 + length (emitted inp b n (inpos' + 1))) (str[outpos := c])"
      using 1(1)[OF True inpos'_def pre[unfolded c_def]]
      unfolding c_def by simp
    have e: "emitted inp b n inpos = c # emitted inp b n (inpos' + 1)"
      using True by (subst emitted.simps) (simp add: Let_def inpos'_def c_def)
    have cp: "copy_escaped inp b n inpos outpos str =
        copy_escaped inp b n (inpos' + 1) (outpos + 1) (str[outpos := c])"
      using True by (subst copy_escaped.simps) (simp add: Let_def inpos'_def c_def)
    have t: "take (outpos + 1) (str[outpos := c]) = take outpos str @ [c]"
      using lt by (simp add: take_Suc_conv_app_nth)
    show ?thesis
      unfolding cp IH e t by simp
  qed
qed

lemma emitted_nonNUL:
  "(\<And>i. b + inpos \<le> i \<Longrightarrow> i < b + n \<Longrightarrow> char_at inp i \<noteq> NUL) \<Longrightarrow>
   NUL \<notin> set (emitted inp b n inpos)"
proof (induction "n - inpos" arbitrary: inpos rule: less_induct)
  case less
  show ?case
  proof (cases "inpos < n")
    case False
    then show ?thesis by (simp add: emitted_done)
  next
    case True
    show ?thesis
    proof (cases "char_at inp (b + inpos) = BSLASH \<and>
      (char_at inp (b + inpos + 1) = DQUOTE \<or> char_at inp (b + inpos + 1) = BSLASH)")
      case T2: True
      have "NUL \<notin> set (emitted inp b n (inpos + 1 + 1))"
        using True less(2) by (intro less(1)) auto
      then show ?thesis using emitted_esc[OF True, of inp b] T2 by auto
    next
      case F2: False
      have "NUL \<notin> set (emitted inp b n (inpos + 1))"
        using True less(2) by (intro less(1)) auto
      moreover have "char_at inp (b + inpos) \<noteq> NUL" using less(2)[of "b + inpos"] True by simp
      ultimately show ?thesis using emitted_plain[OF True F2] by simp
    qed
  qed
qed

lemma c_string_copy_escaped:
  assumes "\<And>i. b \<le> i \<Longrightarrow> i < b + n \<Longrightarrow> char_at inp i \<noteq> NUL"
  shows "c_string (copy_escaped inp b n 0 0 (replicate (n + 1) NUL)) = emitted inp b n 0"
proof -
  have nn: "NUL \<notin> set (emitted inp b n 0)"
    using assms by (intro emitted_nonNUL) simp
  have "copy_escaped inp b n 0 0 (replicate (n + 1) NUL) =
      emitted inp b n 0 @ drop (length (emitted inp b n 0)) (replicate (n + 1) NUL)"
    using copy_escaped_emitted[of 0 n 0 "replicate (n + 1) NUL" inp b] by simp
  also have "\<dots> = emitted inp b n 0 @ replicate (n + 1 - length (emitted inp b n 0)) NUL"
    by (simp only: drop_replicate)
  also have "c_string \<dots> = emitted inp b n 0"
    using nn unfolding c_string_def
    by (subst takeWhile_append2) auto
  finally show ?thesis .
qed

subsection \<open>The scans\<close>

lemma scan_quoted_stop:
  "char_at inp w = NUL \<or> char_at inp w = DQUOTE \<Longrightarrow> scan_quoted inp w = w"
  by (subst scan_quoted.simps) auto

lemma scan_quoted_esc:
  "char_at inp w = BSLASH \<Longrightarrow> char_at inp (w + 1) \<noteq> NUL \<Longrightarrow>
   scan_quoted inp w = scan_quoted inp (w + 1 + 1)"
  by (subst scan_quoted.simps) auto

lemma scan_quoted_plain:
  "char_at inp w \<noteq> NUL \<Longrightarrow> char_at inp w \<noteq> DQUOTE \<Longrightarrow>
   \<not> (char_at inp w = BSLASH \<and> char_at inp (w + 1) \<noteq> NUL) \<Longrightarrow>
   scan_quoted inp w = scan_quoted inp (w + 1)"
  by (subst scan_quoted.simps) auto

lemma scan_quoted_ge: "w \<le> scan_quoted inp w"
proof (induction inp w rule: scan_quoted.induct)
  case (1 inp w)
  then show ?case by (subst scan_quoted.simps) (auto split: if_splits)
qed

lemma scan_quoted_nonNUL:
  "w \<le> i \<Longrightarrow> i < scan_quoted inp w \<Longrightarrow> char_at inp i \<noteq> NUL"
proof (induction inp w rule: scan_quoted.induct)
  case (1 inp w)
  show ?case
  proof (cases "char_at inp w \<noteq> NUL \<and> char_at inp w \<noteq> DQUOTE")
    case False
    then have "scan_quoted inp w = w" by (intro scan_quoted_stop) auto
    with 1(3,4) show ?thesis by simp
  next
    case True
    show ?thesis
    proof (cases "char_at inp w = BSLASH \<and> char_at inp (w + 1) \<noteq> NUL")
      case T2: True
      then have s: "scan_quoted inp w = scan_quoted inp (w + 1 + 1)"
        by (intro scan_quoted_esc) auto
      consider "i = w" | "i = w + 1" | "w + 1 + 1 \<le> i" using 1(3) by linarith
      then show ?thesis
      proof cases
        case 1 then show ?thesis using True by simp
      next
        case 2 then show ?thesis using T2 by simp
      next
        case 3
        then show ?thesis using 1(1)[OF True T2 3] 1(4) s by simp
      qed
    next
      case F2: False
      then have s: "scan_quoted inp w = scan_quoted inp (w + 1)"
        using True by (intro scan_quoted_plain) auto
      consider "i = w" | "w + 1 \<le> i" using 1(3) by linarith
      then show ?thesis
      proof cases
        case 1 then show ?thesis using True by simp
      next
        case 2
        then show ?thesis using 1(2)[OF True F2 2] 1(4) s by simp
      qed
    qed
  qed
qed

lemma scan_string_ge: "w \<le> scan_string inp w"
proof (induction inp w rule: scan_string.induct)
  case (1 inp w)
  then show ?case by (subst scan_string.simps) (auto split: if_splits)
qed

lemma scan_string_stop:
  "char_at inp (scan_string inp w) \<in> {CHR '';'', CHR '','', NUL, CR, LF}"
proof (induction inp w rule: scan_string.induct)
  case (1 inp w)
  then show ?case by (subst scan_string.simps) auto
qed

lemma scan_string_nonNUL:
  "w \<le> i \<Longrightarrow> i < scan_string inp w \<Longrightarrow> char_at inp i \<noteq> NUL"
proof (induction inp w rule: scan_string.induct)
  case (1 inp w)
  show ?case
  proof (cases "i = w")
    case True
    then show ?thesis using 1(3) by (subst (asm) scan_string.simps) (auto split: if_splits)
  next
    case False
    then show ?thesis using 1 by (subst (asm) (2) scan_string.simps) (auto split: if_splits)
  qed
qed

lemma scan_word_ge: "w \<le> scan_word inp w"
proof (induction inp w rule: scan_word.induct)
  case (1 inp w)
  then show ?case by (subst scan_word.simps) (auto split: if_splits)
qed

lemma scan_word_stop:
  "char_at inp (scan_word inp w) \<in> {SPC, TAB, CHR '']'', CHR '';'', CHR '','', NUL, CR, LF}"
proof (induction inp w rule: scan_word.induct)
  case (1 inp w)
  then show ?case by (subst scan_word.simps) auto
qed

lemma scan_word_nonNUL:
  "w \<le> i \<Longrightarrow> i < scan_word inp w \<Longrightarrow> char_at inp i \<noteq> NUL"
proof (induction inp w rule: scan_word.induct)
  case (1 inp w)
  show ?case
  proof (cases "i = w")
    case True
    then show ?thesis using 1(3) by (subst (asm) scan_word.simps) (auto split: if_splits)
  next
    case False
    then show ?thesis using 1 by (subst (asm) (2) scan_word.simps) (auto split: if_splits)
  qed
qed

subsection \<open>The emitted bytes are the decoded text\<close>

lemma emitted_quoted:
  "scan_quoted inp (b + inpos) = b + n \<Longrightarrow>
   emitted inp b n inpos = unescape (slice inp (b + inpos) (b + n))"
proof (induction inp "b + inpos" arbitrary: inpos rule: scan_quoted.induct)
  case (1 inp inpos)
  let ?w = "b + inpos"
  show ?case
  proof (cases "char_at inp ?w \<noteq> NUL \<and> char_at inp ?w \<noteq> DQUOTE")
    case False
    then have "scan_quoted inp ?w = ?w" by (intro scan_quoted_stop) auto
    with 1(3) have "inpos = n" by simp
    then show ?thesis by (subst emitted.simps) simp
  next
    case True
    then have wlt: "?w < length inp" by (auto dest: char_at_nonNUL_lt)
    show ?thesis
    proof (cases "char_at inp ?w = BSLASH \<and> char_at inp (?w + 1) \<noteq> NUL")
      case T2: True
      then have s: "scan_quoted inp (b + (inpos + 1 + 1)) = b + n"
        using scan_quoted_esc[of inp ?w] 1(3) by (simp add: add.assoc)
      have IH: "emitted inp b n (inpos + 1 + 1) = unescape (slice inp (b + (inpos + 1 + 1)) (b + n))"
        using 1(1)[OF True T2 _ s] by (simp add: add.assoc)
      have lt: "inpos + 1 + 1 \<le> n" using scan_quoted_ge[of "b + (inpos + 1 + 1)" inp] s by simp
      have w1lt: "?w + 1 < length inp" using T2 by (auto dest: char_at_nonNUL_lt)
      have sl: "slice inp ?w (b + n) = BSLASH # char_at inp (?w + 1) # slice inp (b + (inpos + 1 + 1)) (b + n)"
        using lt wlt w1lt T2 by (simp add: slice_Cons add.assoc)
      show ?thesis
      proof (cases "char_at inp (?w + 1) = DQUOTE \<or> char_at inp (?w + 1) = BSLASH")
        case T3: True
        have "emitted inp b n inpos = char_at inp (?w + 1) # emitted inp b n (inpos + 1 + 1)"
          using lt T2 T3 by (subst emitted.simps) (auto simp: Let_def add.assoc)
        then show ?thesis using IH sl T3 by auto
      next
        case F3: False
        have e1: "emitted inp b n inpos = BSLASH # emitted inp b n (inpos + 1)"
          using lt T2 F3 by (subst emitted.simps) (auto simp: Let_def add.assoc)
        have e2: "emitted inp b n (inpos + 1) = char_at inp (?w + 1) # emitted inp b n (inpos + 1 + 1)"
          using lt T2 F3 by (subst emitted.simps) (auto simp: Let_def add.assoc)
        show ?thesis using e1 e2 IH sl F3 by (auto simp: unescape_Cons_plain)
      qed
    next
      case F2: False
      then have s: "scan_quoted inp (b + (inpos + 1)) = b + n"
        using scan_quoted_plain[of inp ?w] 1(3) True by (simp add: add.assoc)
      have IH: "emitted inp b n (inpos + 1) = unescape (slice inp (b + (inpos + 1)) (b + n))"
        using 1(2)[OF True F2 _ s] by (simp add: add.assoc)
      have lt: "inpos + 1 \<le> n" using scan_quoted_ge[of "b + (inpos + 1)" inp] s by simp
      have sl: "slice inp ?w (b + n) = char_at inp ?w # slice inp (b + (inpos + 1)) (b + n)"
        using lt wlt by (simp add: slice_Cons add.assoc)
      have e1: "emitted inp b n inpos = char_at inp ?w # emitted inp b n (inpos + 1)"
        using lt F2 by (subst emitted.simps) (auto simp: Let_def add.assoc)
      have last: "char_at inp ?w = BSLASH \<Longrightarrow> slice inp (b + (inpos + 1)) (b + n) = []"
      proof -
        assume "char_at inp ?w = BSLASH"
        then have "char_at inp (?w + 1) = NUL" using F2 by simp
        then have "scan_quoted inp (b + (inpos + 1)) = b + (inpos + 1)"
          by (intro scan_quoted_stop) (simp add: add.assoc)
        with s show ?thesis by simp
      qed
      show ?thesis unfolding e1 IH sl
        using last by (intro unescape_Cons_plain[symmetric]) auto
    qed
  qed
qed


lemma emitted_plain_end:
  "char_at inp (b + n) \<noteq> DQUOTE \<Longrightarrow> char_at inp (b + n) \<noteq> BSLASH \<Longrightarrow>
   inpos \<le> n \<Longrightarrow> (\<And>i. b + inpos \<le> i \<Longrightarrow> i < b + n \<Longrightarrow> char_at inp i \<noteq> NUL) \<Longrightarrow>
   emitted inp b n inpos = unescape (slice inp (b + inpos) (b + n))"
proof (induction "n - inpos" arbitrary: inpos rule: less_induct)
  case less
  show ?case
  proof (cases "inpos < n")
    case False
    with less(4) have "inpos = n" by simp
    then show ?thesis by (simp add: emitted_done)
  next
    case True
    let ?w = "b + inpos"
    have wlt: "?w < length inp" using less(5)[of ?w] True by (auto dest: char_at_nonNUL_lt)
    have sl: "slice inp ?w (b + n) = char_at inp ?w # slice inp (b + (inpos + 1)) (b + n)"
      using True wlt by (simp add: slice_Cons)
    show ?thesis
    proof (cases "char_at inp ?w = BSLASH \<and>
               (char_at inp (?w + 1) = DQUOTE \<or> char_at inp (?w + 1) = BSLASH)")
      case T2: True
      then have lt: "inpos + 1 < n" using True less(2,3) by (cases "inpos + 1 = n") (auto simp: add.assoc)
      have w1lt: "?w + 1 < length inp" using less(5)[of "?w + 1"] lt by (auto dest: char_at_nonNUL_lt)
      have sl2: "slice inp ?w (b + n) = BSLASH # char_at inp (?w + 1) # slice inp (b + (inpos + 1 + 1)) (b + n)"
        using lt w1lt T2 sl by (simp add: slice_Cons add.assoc)
      have IH: "emitted inp b n (inpos + 1 + 1) = unescape (slice inp (b + (inpos + 1 + 1)) (b + n))"
        using lt less(5) by (intro less(1) less(2,3)) auto
      have "emitted inp b n inpos = char_at inp (?w + 1) # emitted inp b n (inpos + 1 + 1)"
        using True T2 by (intro emitted_esc) auto
      then show ?thesis using IH sl2 T2 by auto
    next
      case F2: False
      have IH: "emitted inp b n (inpos + 1) = unescape (slice inp (b + (inpos + 1)) (b + n))"
        using True less(5) by (intro less(1) less(2,3)) auto
      have e1: "emitted inp b n inpos = char_at inp ?w # emitted inp b n (inpos + 1)"
        using True F2 by (intro emitted_plain) auto
      have hd: "slice inp (b + (inpos + 1)) (b + n) \<noteq> [] \<Longrightarrow>
          hd (slice inp (b + (inpos + 1)) (b + n)) = char_at inp (?w + 1)"
        by (auto simp: slice_def char_at_def hd_drop_conv_nth add.assoc hd_conv_nth)
      show ?thesis unfolding e1 IH sl
        using F2 hd by (intro unescape_Cons_plain[symmetric]) auto
    qed
  qed
qed

subsection \<open>Claims about parse_string\<close>

text \<open>
  C1: for every double-quoted value that \<open>parse_string\<close> accepts, in string and in
  word mode, the returned string is the text between the opening quote and the
  final cursor with every backslash-quote pair collapsed to the quote and every
  backslash-backslash pair collapsed to one backslash, and every other character,
  a backslash in front of another character included, copied as it is.
\<close>

theorem parse_string_quoted_decoding:
  assumes q: "char_at inp w = DQUOTE"
    and r: "parse_string inp w as_word = (Some s, w')"
  shows "s = unescape (slice inp (w + 1) w')"
proof -
  let ?b = "w + 1"
  have w': "w' = scan_quoted inp ?b" and ne: "w' \<noteq> ?b"
    and s: "s = c_string (copy_escaped inp ?b (w' - ?b) 0 0 (replicate (w' - ?b + 1) NUL))"
    using q r by (auto simp: parse_string_def Let_def split: if_splits)
  have ge: "?b \<le> w'" using scan_quoted_ge[of ?b inp] w' by simp
  then have bn: "?b + (w' - ?b) = w'" by simp
  have "s = emitted inp ?b (w' - ?b) 0"
    unfolding s
    by (rule c_string_copy_escaped) (use bn w' scan_quoted_nonNUL in auto)
  also have "\<dots> = unescape (slice inp (?b + 0) (?b + (w' - ?b)))"
    by (rule emitted_quoted) (use bn w' in simp)
  finally show ?thesis using bn by simp
qed

lemmas parse_string_eval =
  parse_string_def scan_quoted.simps scan_string.simps scan_word.simps copy_escaped.simps
  c_string_def char_at_def slice_def Let_def

theorem parse_string_quoted_decoding_witness:
  "char_at [DQUOTE, CHR ''a'', BSLASH, DQUOTE, BSLASH, CHR ''w'', BSLASH, BSLASH, DQUOTE, CHR ''x''] 0
     = DQUOTE \<and>
   parse_string [DQUOTE, CHR ''a'', BSLASH, DQUOTE, BSLASH, CHR ''w'', BSLASH, BSLASH, DQUOTE, CHR ''x'']
     0 False = (Some [CHR ''a'', DQUOTE, BSLASH, CHR ''w'', BSLASH], 8) \<and>
   [CHR ''a'', DQUOTE, BSLASH, CHR ''w'', BSLASH] =
     unescape (slice [DQUOTE, CHR ''a'', BSLASH, DQUOTE, BSLASH, CHR ''w'', BSLASH, BSLASH, DQUOTE,
                      CHR ''x''] (0 + 1) 8)"
proof -
  let ?inp = "[DQUOTE, CHR ''a'', BSLASH, DQUOTE, BSLASH, CHR ''w'', BSLASH, BSLASH, DQUOTE, CHR ''x'']"
  have q: "char_at ?inp 0 = DQUOTE" by (simp add: char_at_def)
  have r: "parse_string ?inp 0 False = (Some [CHR ''a'', DQUOTE, BSLASH, CHR ''w'', BSLASH], 8)"
    by (simp add: parse_string_eval)
  from q r parse_string_quoted_decoding[OF q r] show ?thesis by blast
qed

text \<open>
  C3 as stated fails: the unquoted string made of an \<open>a\<close>, two backslashes and a
  \<open>b\<close> is accepted in string mode, all four bytes are consumed, and the capture
  holds one backslash only.
\<close>

theorem parse_string_unquoted_verbatim_counterexample:
  "char_at [CHR ''a'', BSLASH, BSLASH, CHR ''b''] 0 \<noteq> DQUOTE \<and>
   parse_string [CHR ''a'', BSLASH, BSLASH, CHR ''b''] 0 False
     = (Some [CHR ''a'', BSLASH, CHR ''b''], 4) \<and>
   [CHR ''a'', BSLASH, CHR ''b''] \<noteq> slice [CHR ''a'', BSLASH, BSLASH, CHR ''b''] 0 4"
  by (simp add: parse_string_eval)

text \<open>
  C3 as amended: the copy loop decodes unquoted values as well. For every
  unquoted match in string or word mode the capture is the consumed text with
  every backslash-quote and backslash-backslash pair collapsed, and it equals the
  consumed text exactly when that text holds no such pair.
\<close>

theorem parse_string_unquoted_decoding:
  assumes q: "char_at inp w \<noteq> DQUOTE"
    and r: "parse_string inp w as_word = (Some s, w')"
  shows "s = unescape (slice inp w w') \<and>
         (s = slice inp w w' \<longleftrightarrow> \<not> has_escape (slice inp w w'))"
proof -
  have w': "w' = (if as_word then scan_word inp w else scan_string inp w)" and ne: "w' \<noteq> w"
    and s: "s = c_string (copy_escaped inp w (w' - w) 0 0 (replicate (w' - w + 1) NUL))"
    using q r by (auto simp: parse_string_def Let_def split: if_splits)
  have ge: "w \<le> w'" using scan_string_ge[of w inp] scan_word_ge[of w inp] w' by simp
  then have bn: "w + (w' - w) = w'" by simp
  have nn: "\<And>i. w \<le> i \<Longrightarrow> i < w' \<Longrightarrow> char_at inp i \<noteq> NUL"
    using w' scan_string_nonNUL scan_word_nonNUL by (auto split: if_splits)
  have stop: "char_at inp w' \<noteq> DQUOTE \<and> char_at inp w' \<noteq> BSLASH"
    using w' scan_string_stop[of inp w] scan_word_stop[of inp w] by (auto split: if_splits)
  have "s = emitted inp w (w' - w) 0"
    unfolding s
    by (rule c_string_copy_escaped) (use bn nn in auto)
  also have "\<dots> = unescape (slice inp (w + 0) (w + (w' - w)))"
    by (rule emitted_plain_end) (use bn nn stop in auto)
  finally have "s = unescape (slice inp w w')" using bn by simp
  then show ?thesis using unescape_id_iff[of "slice inp w w'"] by auto
qed

theorem parse_string_unquoted_decoding_witness:
  "char_at [CHR ''a'', BSLASH, DQUOTE, CHR ''b'', BSLASH, CHR ''w'', SPC, CHR ''c''] 0 \<noteq> DQUOTE \<and>
   parse_string [CHR ''a'', BSLASH, DQUOTE, CHR ''b'', BSLASH, CHR ''w'', SPC, CHR ''c''] 0 True
     = (Some [CHR ''a'', DQUOTE, CHR ''b'', BSLASH, CHR ''w''], 6) \<and>
   [CHR ''a'', DQUOTE, CHR ''b'', BSLASH, CHR ''w''] =
     unescape (slice [CHR ''a'', BSLASH, DQUOTE, CHR ''b'', BSLASH, CHR ''w'', SPC, CHR ''c''] 0 6) \<and>
   has_escape (slice [CHR ''a'', BSLASH, DQUOTE, CHR ''b'', BSLASH, CHR ''w'', SPC, CHR ''c''] 0 6)"
proof -
  let ?inp = "[CHR ''a'', BSLASH, DQUOTE, CHR ''b'', BSLASH, CHR ''w'', SPC, CHR ''c'']"
  have q: "char_at ?inp 0 \<noteq> DQUOTE" by (simp add: char_at_def)
  have r: "parse_string ?inp 0 True = (Some [CHR ''a'', DQUOTE, CHR ''b'', BSLASH, CHR ''w''], 6)"
    by (simp add: parse_string_eval)
  have h: "has_escape (slice ?inp 0 6)" by (simp add: slice_def)
  from q r h parse_string_unquoted_decoding[OF q r] show ?thesis by blast
qed

section \<open>Properties of the argument stack\<close>

lemma entry_update_all:
  "e\<lparr>se_identifier := i, se_val := v, se_type := t\<rparr> =
     \<lparr>se_identifier = i, se_type = t, se_val = v\<rparr>"
  by (cases e) simp

lemma push_string_from_free:
  "c \<le> i \<Longrightarrow> i < 10 \<Longrightarrow> free_slot stk i \<Longrightarrow> (\<And>j. c \<le> j \<Longrightarrow> j < i \<Longrightarrow> \<not> free_slot stk j) \<Longrightarrow>
   push_string_from c stk identifier str =
     Inr (stk[i := capture_entry (Push_string identifier str)])"
proof (induction "i - c" arbitrary: c)
  case 0
  then have "c = i" by simp
  then show ?case using 0
    by (subst push_string_from.simps) (simp add: free_slot_def entry_update_all)
next
  case (Suc d)
  then have lt: "c < i" and occ: "\<not> free_slot stk c" by auto
  have "push_string_from (c + 1) stk identifier str =
     Inr (stk[i := capture_entry (Push_string identifier str)])"
    using Suc(2) lt Suc(4,5) by (intro Suc(1) Suc(6)) auto
  then show ?case using lt Suc(4) occ
    by (subst push_string_from.simps) (simp add: free_slot_def)
qed

lemma push_long_from_free:
  "c \<le> i \<Longrightarrow> i < 10 \<Longrightarrow> free_slot stk i \<Longrightarrow> (\<And>j. c \<le> j \<Longrightarrow> j < i \<Longrightarrow> \<not> free_slot stk j) \<Longrightarrow>
   push_long_from c stk identifier num =
     Inr (stk[i := capture_entry (Push_long identifier num)])"
proof (induction "i - c" arbitrary: c)
  case 0
  then have "c = i" by simp
  then show ?case using 0
    by (subst push_long_from.simps) (simp add: free_slot_def entry_update_all)
next
  case (Suc d)
  then have lt: "c < i" and occ: "\<not> free_slot stk c" by auto
  have "push_long_from (c + 1) stk identifier num =
     Inr (stk[i := capture_entry (Push_long identifier num)])"
    using Suc(2) lt Suc(4,5) by (intro Suc(1) Suc(6)) auto
  then show ?case using lt Suc(4) occ
    by (subst push_long_from.simps) (simp add: free_slot_def)
qed

lemma push_string_from_full:
  "(\<And>j. c \<le> j \<Longrightarrow> j < 10 \<Longrightarrow> \<not> free_slot stk j) \<Longrightarrow>
   push_string_from c stk identifier str = Inl Stack_full"
proof (induction "10 - c" arbitrary: c)
  case 0
  then show ?case by (subst push_string_from.simps) simp
next
  case (Suc d)
  then have "push_string_from (c + 1) stk identifier str = Inl Stack_full"
    by (intro Suc(1)) auto
  then show ?case using Suc(2) Suc(3)[of c]
    by (subst push_string_from.simps) (simp add: free_slot_def)
qed

lemma push_long_from_full:
  "(\<And>j. c \<le> j \<Longrightarrow> j < 10 \<Longrightarrow> \<not> free_slot stk j) \<Longrightarrow>
   push_long_from c stk identifier num = Inl Stack_full"
proof (induction "10 - c" arbitrary: c)
  case 0
  then show ?case by (subst push_long_from.simps) simp
next
  case (Suc d)
  then have "push_long_from (c + 1) stk identifier num = Inl Stack_full"
    by (intro Suc(1)) auto
  then show ?case using Suc(2) Suc(3)[of c]
    by (subst push_long_from.simps) (simp add: free_slot_def)
qed

lemma push_lowest_free:
  "i < 10 \<Longrightarrow> free_slot stk i \<Longrightarrow> (\<And>j. j < i \<Longrightarrow> \<not> free_slot stk j) \<Longrightarrow>
   push stk c = Inr (stk[i := capture_entry c])"
  by (cases c)
     (simp_all add: push_string_def push_long_def push_string_from_free push_long_from_free
        del: capture_entry.simps)

lemma push_full:
  "(\<And>j. j < 10 \<Longrightarrow> \<not> free_slot stk j) \<Longrightarrow> push stk c = Inl Stack_full"
  by (cases c) (simp_all add: push_string_def push_long_def push_string_from_full push_long_from_full)

lemma capture_entry_identifier [simp]:
  "se_identifier (capture_entry c) = Some (capture_name c)"
  by (cases c) simp_all

lemma pushes_from_prefix:
  "length stk = 10 \<Longrightarrow> k \<le> 10 \<Longrightarrow> (\<And>j. j < k \<Longrightarrow> \<not> free_slot stk j) \<Longrightarrow>
   (\<And>j. k \<le> j \<Longrightarrow> j < 10 \<Longrightarrow> free_slot stk j) \<Longrightarrow>
   pushes stk cs =
     (if k + length cs \<le> 10
      then Inr (take k stk @ map capture_entry cs @ drop (k + length cs) stk)
      else Inl Stack_full)"
proof (induction cs arbitrary: stk k)
  case Nil
  then show ?case by simp
next
  case (Cons c cs)
  show ?case
  proof (cases "k < 10")
    case False
    with Cons(3) have k: "k = 10" by simp
    have "push stk c = Inl Stack_full"
      using Cons(4) k by (intro push_full) auto
    then show ?thesis using k by simp
  next
    case True
    let ?stk = "stk[k := capture_entry c]"
    have p: "push stk c = Inr ?stk"
      using True Cons(4,5) by (intro push_lowest_free) auto
    have IH: "pushes ?stk cs =
      (if Suc k + length cs \<le> 10
       then Inr (take (Suc k) ?stk @ map capture_entry cs @ drop (Suc k + length cs) ?stk)
       else Inl Stack_full)"
    proof (rule Cons(1))
      show "length ?stk = 10" using Cons(2) by simp
      show "Suc k \<le> 10" using True by simp
      show "\<not> free_slot ?stk j" if "j < Suc k" for j
        using that Cons(4)[of j] True Cons(2)
        by (cases "j = k") (auto simp: free_slot_def)
      show "free_slot ?stk j" if "Suc k \<le> j" "j < 10" for j
        using that Cons(5)[of j] by (auto simp: free_slot_def)
    qed
    have t: "take (Suc k) ?stk = take k stk @ [capture_entry c]"
      using True Cons(2) by (simp add: take_Suc_conv_app_nth)
    have d: "drop (Suc k + length cs) ?stk = drop (Suc k + length cs) stk"
      by simp
    show ?thesis using p IH t d by simp
  qed
qed

lemma clear_stack_free: "j < length stk \<Longrightarrow> free_slot (clear_stack stk) j"
  by (simp add: clear_stack_def free_slot_def)

lemma clear_stack_length [simp]: "length (clear_stack stk) = length stk"
  by (simp add: clear_stack_def)

lemma occupied_names_append [simp]:
  "occupied_names (xs @ ys) = occupied_names xs @ occupied_names ys"
  by (simp add: occupied_names_def List.map_filter_def)

lemma occupied_names_captures [simp]:
  "occupied_names (map capture_entry cs) = map capture_name cs"
  by (induction cs) (simp_all add: occupied_names_def List.map_filter_def)

lemma occupied_names_drop_clear [simp]:
  "occupied_names (drop n (clear_stack stk)) = []"
  by (simp add: occupied_names_def List.map_filter_def clear_stack_def filter_empty_conv drop_map)

lemma pushes_cleared:
  assumes "length stk = 10"
  shows "pushes (clear_stack stk) cs =
     (if length cs \<le> 10
      then Inr (map capture_entry cs @ drop (length cs) (clear_stack stk))
      else Inl Stack_full)"
  using pushes_from_prefix[of "clear_stack stk" 0 cs] assms
  by (simp add: clear_stack_free)

lemma occupied_names_Cons [simp]:
  "occupied_names (capture_entry c # stk) = capture_name c # occupied_names stk"
  by (simp add: occupied_names_def List.map_filter_def)

lemma zero_stack_length: "length zero_stack = 10"
  by (simp add: zero_stack_def)

lemma zero_stack_free: "j < 10 \<Longrightarrow> free_slot zero_stack j"
  by (simp add: zero_stack_def free_slot_def)


subsection \<open>Claims about the argument stack\<close>

text \<open>
  C8: a push (\<open>push_string\<close> or \<open>push_long\<close>) on the ten-slot stack stores the value
  in the free slot of lowest index, changes no other slot and returns; with all
  ten slots occupied the process exits; and at most ten pushes on a cleared stack
  never exit.
\<close>

theorem push_lowest_free_slot_or_exit:
  assumes "length stk = 10"
  shows "(\<forall>i<10. free_slot stk i \<and> (\<forall>j<i. \<not> free_slot stk j) \<longrightarrow>
            push stk c = Inr (stk[i := capture_entry c])) \<and>
         ((\<forall>j<10. \<not> free_slot stk j) \<longrightarrow> push stk c = Inl Stack_full) \<and>
         (length cs \<le> 10 \<longrightarrow> (\<exists>stk'. pushes (clear_stack stk) cs = Inr stk'))"
  using assms by (auto simp: push_lowest_free push_full pushes_cleared)

theorem push_lowest_free_slot_or_exit_witness:
  "length zero_stack = 10 \<and>
   free_slot zero_stack 0 \<and>
   push zero_stack (Push_long ''workspace'' 4) =
     Inr (zero_stack[0 := capture_entry (Push_long ''workspace'' 4)]) \<and>
   length (replicate 10 (capture_entry (Push_string ''x'' ''v''))) = 10 \<and>
   push (replicate 10 (capture_entry (Push_string ''x'' ''v''))) (Push_string ''y'' ''w'')
     = Inl Stack_full \<and>
   (\<exists>stk'. pushes (clear_stack zero_stack) [Push_long ''a'' 10, Push_long ''b'' 20] = Inr stk')"
proof -
  let ?full = "replicate 10 (capture_entry (Push_string ''x'' ''v''))"
  have f: "\<forall>j<10. \<not> free_slot ?full j" by (simp add: free_slot_def)
  have z: "free_slot zero_stack 0 \<and> (\<forall>j<0. \<not> free_slot zero_stack j)"
    by (simp add: zero_stack_free)
  have l: "length [Push_long ''a'' 10, Push_long ''b'' 20] \<le> 10" by simp
  show ?thesis
    using push_lowest_free_slot_or_exit[OF zero_stack_length, of "Push_long ''workspace'' 4"
            "[Push_long ''a'' 10, Push_long ''b'' 20]"]
          push_lowest_free_slot_or_exit[of ?full "Push_string ''y'' ''w''" "[]"]
          f z l zero_stack_length
    by simp
qed

text \<open>
  C9 as stated fails: two pushes of the same identifier on a cleared stack occupy
  slots 0 and 1 under the same name, and \<open>get_string\<close> finds the first of them.
\<close>

theorem pushes_same_name_counterexample:
  "pushes (clear_stack zero_stack) [Push_string ''x'' ''a'', Push_string ''x'' ''b''] =
     Inr ([capture_entry (Push_string ''x'' ''a''), capture_entry (Push_string ''x'' ''b'')] @
          drop 2 (clear_stack zero_stack)) \<and>
   occupied_names ([capture_entry (Push_string ''x'' ''a''), capture_entry (Push_string ''x'' ''b'')] @
          drop 2 (clear_stack zero_stack)) = [''x'', ''x''] \<and>
   \<not> distinct [''x'', ''x''] \<and>
   get_string ([capture_entry (Push_string ''x'' ''a''), capture_entry (Push_string ''x'' ''b'')] @
          drop 2 (clear_stack zero_stack)) ''x'' = Val_str ''a''"
  using pushes_cleared[OF zero_stack_length, of "[Push_string ''x'' ''a'', Push_string ''x'' ''b'']"]
  by (simp add: numeral_2_eq_2 get_string_def get_string_from.simps
        del: capture_entry.simps pushes.simps)
     (simp add: get_string_from.simps)

text \<open>
  C9 as amended: the stack does not compare identifiers when it pushes. After a
  sequence of pushes on a cleared stack that did not exit, the names of the
  occupied slots are the pushed identifiers in the order of the pushes, so they
  are pairwise distinct exactly when the pushed identifiers are.
\<close>

theorem pushes_occupied_names:
  assumes "length stk = 10" and "pushes (clear_stack stk) cs = Inr stk'"
  shows "occupied_names stk' = map capture_name cs \<and>
         (distinct (occupied_names stk') \<longleftrightarrow> distinct (map capture_name cs))"
proof -
  have "stk' = map capture_entry cs @ drop (length cs) (clear_stack stk)"
    using assms pushes_cleared[OF assms(1), of cs] by (simp split: if_splits)
  then show ?thesis by simp
qed

theorem pushes_occupied_names_witness:
  "length zero_stack = 10 \<and>
   pushes (clear_stack zero_stack) [Push_long ''width'' 10, Push_long ''height'' 20] =
     Inr ([capture_entry (Push_long ''width'' 10), capture_entry (Push_long ''height'' 20)] @
          drop 2 (clear_stack zero_stack)) \<and>
   occupied_names ([capture_entry (Push_long ''width'' 10), capture_entry (Push_long ''height'' 20)] @
          drop 2 (clear_stack zero_stack)) = [''width'', ''height''] \<and>
   distinct (occupied_names ([capture_entry (Push_long ''width'' 10),
          capture_entry (Push_long ''height'' 20)] @ drop 2 (clear_stack zero_stack)))"
proof -
  have r: "pushes (clear_stack zero_stack) [Push_long ''width'' 10, Push_long ''height'' 20] =
     Inr ([capture_entry (Push_long ''width'' 10), capture_entry (Push_long ''height'' 20)] @
          drop 2 (clear_stack zero_stack))"
    using pushes_cleared[OF zero_stack_length, of "[Push_long ''width'' 10, Push_long ''height'' 20]"]
    by (simp add: numeral_2_eq_2 del: capture_entry.simps pushes.simps)
  show ?thesis
    using pushes_occupied_names[OF zero_stack_length r] zero_stack_length r by simp
qed

section \<open>Properties of the parser\<close>

lemma yajl_gen_fields [simp]:
  "state (yajl_gen c p) = state p"
  "stack (yajl_gen c p) = stack p"
  "subcommand_output (yajl_gen c p) = subcommand_output p"
  "command_output (yajl_gen c p) = command_output p"
  "walk (yajl_gen c p) = walk p"
  "result (yajl_gen c p) = result p"
  "position (yajl_gen c p) = position p"
  "world (yajl_gen c p) = world p"
  by (simp_all add: yajl_gen_def)

lemma yajl_gen_calls:
  "calls (yajl_gen c p) = calls p @ (if ir_json_gen (command_output p) then [Yajl c] else [])"
  by (simp add: yajl_gen_def)

lemma fold_yajl_gen:
  "fold yajl_gen cs p =
     (if ir_json_gen (command_output p) then p\<lparr>calls := calls p @ map Yajl cs\<rparr> else p)"
  by (induction cs arbitrary: p) (simp_all add: yajl_gen_def)

lemma call_criteria_init_fields [simp]:
  "state (call_criteria_init ext p) = state p"
  "stack (call_criteria_init ext p) = stack p"
  "command_output (call_criteria_init ext p) = command_output p"
  "walk (call_criteria_init ext p) = walk p"
  "result (call_criteria_init ext p) = result p"
  "position (call_criteria_init ext p) = position p"
  "calls (call_criteria_init ext p) = calls p @ [Criteria_init]"
  by (simp_all add: call_criteria_init_def split_beta)

lemma next_state_fields [simp]:
  "walk (next_state ext t p) = walk p"
  "result (next_state ext t p) = result p"
  "position (next_state ext t p) = position p"
  "ir_json_gen (command_output (next_state ext t p)) = ir_json_gen (command_output p)"
  by (simp_all add: next_state_def Let_def split_beta)

lemma next_state_calls:
  "calls (next_state ext t p) =
     calls p @ (if tk_next_state t = CALL
                then [Generated_call (tk_call_identifier t) (stack p)
                        (ir_next_state (handler_output ext t p))
                        (ir_needs_tree_render (handler_output ext t p))]
                else [])"
  by (simp add: next_state_def Let_def split_beta handler_output_def)


lemma next_state_state:
  "state (next_state ext t p) =
     (if tk_next_state t = CALL then ir_next_state (handler_output ext t p)
      else tk_next_state t)"
  by (simp add: next_state_def Let_def split_beta handler_output_def)

lemma next_state_stack:
  "stack (next_state ext t p) =
     (if tk_next_state t = CALL \<or> tk_next_state t = INITIAL then clear_stack (stack p)
      else stack p)"
  by (simp add: next_state_def Let_def split_beta)

lemma criteria_inits_append [simp]:
  "criteria_inits (cs @ ds) = criteria_inits cs + criteria_inits ds"
  by (simp add: criteria_inits_def)

lemma criteria_inits_simps [simp]:
  "criteria_inits [] = 0"
  "criteria_inits (Criteria_init # cs) = Suc (criteria_inits cs)"
  "criteria_inits (Generated_call c stk ns f # cs) = criteria_inits cs"
  "criteria_inits (Yajl v # cs) = criteria_inits cs"
  by (simp_all add: criteria_inits_def)

lemma dispatch_flags_append [simp]:
  "dispatch_flags (cs @ ds) = dispatch_flags cs @ dispatch_flags ds"
  by (simp add: dispatch_flags_def List.map_filter_def)

lemma dispatch_flags_simps [simp]:
  "dispatch_flags [] = []"
  "dispatch_flags (Criteria_init # cs) = dispatch_flags cs"
  "dispatch_flags (Generated_call c stk ns f # cs) = f # dispatch_flags cs"
  "dispatch_flags (Yajl v # cs) = dispatch_flags cs"
  by (simp_all add: dispatch_flags_def List.map_filter_def)

text \<open>The shape of one attempt.\<close>

lemma try_token_not_handled:
  assumes "try_token ext input t p = Inr (False, p')"
  shows "state p' = state p \<and> stack p' = stack p \<and> subcommand_output p' = subcommand_output p \<and>
         command_output p' = command_output p \<and> result p' = result p \<and>
         position p' = position p \<and> world p' = world p \<and> calls p' = calls p"
  using assms
  by (auto simp: try_token_def Let_def split: if_splits sum.splits prod.splits option.splits)

lemma try_token_handled:
  assumes "try_token ext input t p = Inr (True, p')"
  shows "(\<exists>stk w. p' = next_state ext t (p\<lparr>stack := stk, walk := w\<rparr>)) \<or>
         (tk_name t = ''end'' \<and>
          (if char_at input (walk p) = NUL \<or> char_at input (walk p) = CHR '';''
           then p' = (call_criteria_init ext (next_state ext t p))\<lparr>walk := walk p + 1\<rparr>
           else p' = (next_state ext t p)\<lparr>walk := walk p + 1\<rparr>))"
  using assms
  by (auto simp: try_token_def Let_def split: if_splits sum.splits prod.splits option.splits)

lemma strncasecmp_prefix:
  "length lit \<le> length rest \<Longrightarrow>
   map tolower (take (length lit) rest) = map tolower lit \<Longrightarrow>
   strncasecmp rest lit (length lit) = 0"
proof (induction lit arbitrary: rest)
  case Nil
  then show ?case by simp
next
  case (Cons c cs)
  then obtain r rs where rest: "rest = r # rs" by (cases rest) auto
  with Cons.prems have "tolower r = tolower c" "length cs \<le> length rs"
    "map tolower (take (length cs) rs) = map tolower cs" by auto
  then show ?case using Cons.IH[of rs] rest by (simp add: char_at_def Let_def)
qed

lemma try_token_literal_match:
  assumes "char_at (tk_name t) 0 = SQUOTE"
    and "strncasecmp (drop (walk p) input) (tl (tk_name t)) (length (tk_name t) - 1) = 0"
    and "push_capture t (\<lambda>i. push_string (stack p) i (tl (tk_name t))) (stack p) = Inr stk"
  shows "try_token ext input t p =
     Inr (True, next_state ext t (p\<lparr>stack := stk, walk := walk p + (length (tk_name t) - 1)\<rparr>))"
  using assms by (simp add: try_token_def Let_def)

lemma try_token_literal_mismatch:
  assumes "char_at (tk_name t) 0 = SQUOTE"
    and "strncasecmp (drop (walk p) input) (tl (tk_name t)) (length (tk_name t) - 1) \<noteq> 0"
  shows "try_token ext input t p = Inr (False, p)"
  using assms by (simp add: try_token_def Let_def)

lemma end_not_literal [simp]: "char_at ''end'' 0 \<noteq> SQUOTE"
  by (simp add: char_at_def)

lemma try_token_end_match:
  assumes "tk_name t = ''end''"
    and "char_at input (walk p) = NUL \<or> char_at input (walk p) = CHR '','' \<or>
         char_at input (walk p) = CHR '';''"
  shows "try_token ext input t p =
     Inr (True, (if char_at input (walk p) = NUL \<or> char_at input (walk p) = CHR '';''
                 then call_criteria_init ext (next_state ext t p)
                 else next_state ext t p)\<lparr>walk := walk p + 1\<rparr>)"
  using assms by (auto simp: try_token_def Let_def)

lemma try_token_end_mismatch:
  assumes "tk_name t = ''end''"
    and "char_at input (walk p) \<noteq> NUL" "char_at input (walk p) \<noteq> CHR '',''"
        "char_at input (walk p) \<noteq> CHR '';''"
  shows "try_token ext input t p = Inr (False, p)"
  using assms by (auto simp: try_token_def Let_def)

text \<open>Where a failed attempt leaves the cursor.\<close>

lemma parse_string_None_cursor:
  "parse_string input w as_word = (None, w') \<Longrightarrow>
   (if char_at input w = DQUOTE then w' = w + 1 else w' = w)"
  by (auto simp: parse_string_def Let_def split: if_splits)

lemma try_token_not_handled_walk:
  assumes "try_token ext input t p = Inr (False, p')"
  shows "walk p' =
     (if (tk_name t = ''string'' \<or> tk_name t = ''word'') \<and> char_at input (walk p) = DQUOTE
      then walk p + 1 else walk p)"
  using assms
  by (auto simp: try_token_def Let_def char_at_def
      split: if_splits sum.splits prod.splits option.splits
      dest!: parse_string_None_cursor[unfolded char_at_def])

lemma parse_loop_exit:
  "\<not> walk p \<le> strlen input \<Longrightarrow> parse_loop ext input p = Some (Inr p)"
  by (subst parse_loop.simps) simp

lemma parse_loop_continue:
  "walk p \<le> strlen input \<Longrightarrow> loop_body ext input p = Inr (True, p') \<Longrightarrow>
   parse_loop ext input p = parse_loop ext input p'"
  by (subst parse_loop.simps) simp

lemma parse_loop_break:
  "walk p \<le> strlen input \<Longrightarrow> loop_body ext input p = Inr (False, p') \<Longrightarrow>
   parse_loop ext input p = Some (Inr p')"
  by (subst parse_loop.simps) simp

lemma parse_loop_abort:
  "walk p \<le> strlen input \<Longrightarrow> loop_body ext input p = Inl e \<Longrightarrow>
   parse_loop ext input p = Some (Inl e)"
  by (subst parse_loop.simps) simp


subsection \<open>The failure branch and the frame of parse_command\<close>


lemma caret_map:
  "map (\<lambda>i. if w \<le> i then CHR ''^'' else SPC) [0..<n] = caret_line n w"
proof (induction n)
  case 0
  show ?case by (simp add: caret_line_def)
next
  case (Suc n)
  show ?case
  proof (cases "w \<le> n")
    case True
    then show ?thesis
      using Suc by (simp add: caret_line_def Suc_diff_le replicate_append_same min_def)
  next
    case False
    then have "min w (Suc n) = Suc (min w n)" "Suc n - w = 0" "n - w = 0" by auto
    then show ?thesis
      using Suc False by (simp add: caret_line_def replicate_append_same)
  qed
qed


lemma syntax_error_fields:
  "result (syntax_error input ptr p) =
     (result p)\<lparr>parse_error := True,
                error_message := Some (''Expected one of these tokens: '' @ possible_tokens ptr)\<rparr>"
  "position (syntax_error input ptr p) = Some (caret_line (strlen input) (walk p))"
  "command_output (syntax_error input ptr p) = command_output p"
  "state (syntax_error input ptr p) = state p"
  "walk (syntax_error input ptr p) = walk p"
  "stack (syntax_error input ptr p) = clear_stack (stack p)"
  unfolding syntax_error_def Let_def fold_yajl_gen caret_map
  by simp_all

lemma syntax_error_calls:
  "calls (syntax_error input ptr p) =
     calls p @ (if ir_json_gen (command_output p)
                then map Yajl (error_reply (''Expected one of these tokens: '' @ possible_tokens ptr)
                       input (caret_line (strlen input) (walk p)))
                else [])"
  unfolding syntax_error_def Let_def fold_yajl_gen caret_map
  by simp

lemma parse_command_finish_fields:
  "parse_error (result (parse_command_finish p)) = parse_error (result p)"
  "error_message (result (parse_command_finish p)) = error_message (result p)"
  "needs_tree_render (result (parse_command_finish p)) = ir_needs_tree_render (command_output p)"
  "position (parse_command_finish p) = position p"
  "walk (parse_command_finish p) = walk p"
  "state (parse_command_finish p) = state p"
  "stack (parse_command_finish p) = stack p"
  "calls (parse_command_finish p) =
     calls p @ (if ir_json_gen (command_output p) then [Yajl Yajl_array_close] else [])"
  by (simp_all add: parse_command_finish_def Let_def yajl_gen_calls)

lemma parse_command_start_fields:
  "state (parse_command_start ext gen p) = INITIAL"
  "walk (parse_command_start ext gen p) = 0"
  "stack (parse_command_start ext gen p) = stack p"
  "result (parse_command_start ext gen p) =
     \<lparr>parse_error = False, error_message = None, needs_tree_render = False\<rparr>"
  "position (parse_command_start ext gen p) = None"
  "ir_json_gen (command_output (parse_command_start ext gen p)) = gen"
  "ir_needs_tree_render (command_output (parse_command_start ext gen p)) = False"
  "calls (parse_command_start ext gen p) =
     (if gen then [Yajl Yajl_array_open] else []) @ [Criteria_init]"
  by (simp_all add: parse_command_start_def Let_def yajl_gen_calls)

lemma loop_reaches_parse_loop:
  "loop_reaches ext input p q \<Longrightarrow> parse_loop ext input p = parse_loop ext input q"
  by (induction rule: loop_reaches.induct) (simp_all add: parse_loop_continue)

lemma loop_body_break:
  assumes "try_tokens ext input (tokens ext (state p))
             (p\<lparr>walk := skip_whitespace input (walk p)\<rparr>) = Inr (False, p2)"
  shows "loop_body ext input p = Inr (False, syntax_error input (tokens ext (state p)) p2)"
  using assms by (simp add: loop_body_def Let_def)

lemma loop_body_continue:
  assumes "try_tokens ext input (tokens ext (state p))
             (p\<lparr>walk := skip_whitespace input (walk p)\<rparr>) = Inr (True, p2)"
  shows "loop_body ext input p = Inr (True, p2)"
  using assms by (simp add: loop_body_def Let_def)


lemma strlen_simps [simp]: "strlen [] = 0"
  by (simp add: strlen_def)

lemma strlen_nonNUL_Cons: "c \<noteq> NUL \<Longrightarrow> strlen (c # cs) = Suc (strlen cs)"
  by (simp add: strlen_def)


subsection \<open>Attempts at the end of the input\<close>

lemma tolower_NUL_iff [simp]: "tolower c = NUL \<longleftrightarrow> c = NUL"
  by (auto simp: tolower_def char_of_eq_iff take_bit_eq_mod)

lemma tolower_NUL_iff' [simp]: "NUL = tolower c \<longleftrightarrow> c = NUL"
  using tolower_NUL_iff[of c] by (simp only: eq_commute)

lemma tolower_NUL [simp]: "tolower NUL = NUL"
  by simp

lemma of_char_pos_iff [simp]: "0 < (of_char c :: nat) \<longleftrightarrow> c \<noteq> NUL"
proof -
  have "(of_char c :: nat) = of_char NUL \<longleftrightarrow> c = NUL" by (rule of_char_eq_iff)
  then show ?thesis by (simp add: zero_less_iff_neq_zero)
qed

lemma strncasecmp_empty_input:
  "char_at lit 0 \<noteq> NUL \<Longrightarrow> 0 < n \<Longrightarrow> strncasecmp [] lit n \<noteq> 0"
  by (cases n) (auto simp: Let_def char_at_def split: if_splits)

lemma walk_update_same: "walk p = w \<Longrightarrow> p\<lparr>walk := w\<rparr> = p"
  by auto

lemma try_token_empty_input:
  assumes "walk p = 0" and "tk_name u \<noteq> ''end''"
    and "char_at (tk_name u) 0 = SQUOTE \<longrightarrow> char_at (tk_name u) 1 \<noteq> NUL"
  shows "try_token ext [] u p = Inr (False, p)"
proof (cases "char_at (tk_name u) 0 = SQUOTE")
  case True
  then obtain c rest where n: "tk_name u = SQUOTE # c # rest" and c: "c \<noteq> NUL"
    using assms(3) by (cases "tk_name u"; cases "tl (tk_name u)") (auto simp: char_at_def)
  have "strncasecmp [] (c # rest) (Suc (length rest)) \<noteq> 0"
    using c by (intro strncasecmp_empty_input) (simp_all add: char_at_def)
  then have "strncasecmp (drop (walk p) []) (tl (tk_name u)) (length (tk_name u) - 1) \<noteq> 0"
    by (simp add: n)
  then show ?thesis using True by (rule try_token_literal_mismatch[rotated])
next
  case False
  have num: "strtol [] 0 = (0, 0, Errno_0)"
    by (simp add: strtol_def skip_space.simps scan_digits.simps isspace_def isdigit_def
          char_at_def)
  have str: "parse_string [] 0 as_word = (None, 0)" for as_word
    by (simp add: parse_string_def scan_string.simps scan_word.simps char_at_def)
  show ?thesis
    using False assms(1,2)
    by (simp add: try_token_def num str walk_update_same)
qed

lemma try_tokens_empty_input:
  assumes "walk p = 0"
    and "\<forall>u\<in>set pre. tk_name u \<noteq> ''end'' \<and>
           (char_at (tk_name u) 0 = SQUOTE \<longrightarrow> char_at (tk_name u) 1 \<noteq> NUL)"
  shows "try_tokens ext [] (pre @ rest) p = try_tokens ext [] rest p"
  using assms(2)
  by (induction pre) (simp_all add: try_token_empty_input[OF assms(1)])

lemma skip_whitespace_empty [simp]: "skip_whitespace [] w = w"
  by (subst skip_whitespace.simps) (simp add: char_at_def)


subsection \<open>Invariants of the loop\<close>


lemma dispatch_flags_map_Yajl [simp]: "dispatch_flags (map Yajl ys) = []"
  by (induction ys) simp_all

lemma try_token_not_handled_eq:
  assumes "try_token ext input t p = Inr (False, p')"
  shows "p' = p\<lparr>walk := walk p'\<rparr>"
  using assms
  by (auto simp: try_token_def Let_def split: if_splits sum.splits prod.splits option.splits)

text \<open>A property kept by every elementary step is kept by the loop.\<close>

lemma try_token_invariant:
  assumes "try_token ext input t p = Inr (h, p')" and "I p"
    and walk: "\<And>q w. I q \<Longrightarrow> I (q\<lparr>walk := w\<rparr>)"
    and stack: "\<And>q stk. I q \<Longrightarrow> I (q\<lparr>stack := stk\<rparr>)"
    and nxt: "\<And>q t. I q \<Longrightarrow> I (next_state ext t q)"
    and crit: "\<And>q. I q \<Longrightarrow> I (call_criteria_init ext q)"
  shows "I p'"
proof (cases h)
  case False
  with assms(1) have "p' = p\<lparr>walk := walk p'\<rparr>" by (simp add: try_token_not_handled_eq)
  then show ?thesis using walk[OF assms(2), of "walk p'"] by simp
next
  case True
  with assms(1) have "try_token ext input t p = Inr (True, p')" by simp
  from try_token_handled[OF this] show ?thesis
  proof (elim disjE exE conjE)
    fix stk w assume "p' = next_state ext t (p\<lparr>stack := stk, walk := w\<rparr>)"
    moreover have "I (p\<lparr>stack := stk, walk := w\<rparr>)"
      using walk[OF stack[OF assms(2), of stk], of w] by simp
    ultimately show ?thesis using nxt by simp
  next
    assume "if char_at input (walk p) = NUL \<or> char_at input (walk p) = CHR '';''
      then p' = (call_criteria_init ext (next_state ext t p))\<lparr>walk := walk p + 1\<rparr>
      else p' = (next_state ext t p)\<lparr>walk := walk p + 1\<rparr>"
    moreover have "I (next_state ext t p)" using nxt[OF assms(2)] .
    ultimately show ?thesis
      using walk crit by (auto split: if_splits)
  qed
qed

lemma try_tokens_invariant:
  assumes "try_tokens ext input ts p = Inr (h, p')" and "I p"
    and walk: "\<And>q w. I q \<Longrightarrow> I (q\<lparr>walk := w\<rparr>)"
    and stack: "\<And>q stk. I q \<Longrightarrow> I (q\<lparr>stack := stk\<rparr>)"
    and nxt: "\<And>q t. I q \<Longrightarrow> I (next_state ext t q)"
    and crit: "\<And>q. I q \<Longrightarrow> I (call_criteria_init ext q)"
  shows "I p'"
  using assms(1,2)
proof (induction ts arbitrary: p)
  case Nil
  then show ?case by simp
next
  case (Cons t ts)
  show ?case
  proof (cases "try_token ext input t p")
    case (Inl e)
    with Cons.prems show ?thesis by simp
  next
    case (Inr hq)
    obtain h1 q where hq: "hq = (h1, q)" by (cases hq)
    have q: "I q"
      by (rule try_token_invariant[where I = I and p = p and t = t and h = h1])
         (use Inr hq Cons.prems(2) walk stack nxt crit in auto)
    show ?thesis
    proof (cases h1)
      case True
      with Cons.prems(1) Inr hq q show ?thesis by simp
    next
      case False
      with Cons.prems(1) Inr hq have "try_tokens ext input ts q = Inr (h, p')" by simp
      from Cons.IH[OF this q] show ?thesis .
    qed
  qed
qed

lemma loop_body_invariant:
  assumes "loop_body ext input p = Inr (c, p')" and "I p"
    and walk: "\<And>q w. I q \<Longrightarrow> I (q\<lparr>walk := w\<rparr>)"
    and stack: "\<And>q stk. I q \<Longrightarrow> I (q\<lparr>stack := stk\<rparr>)"
    and nxt: "\<And>q t. I q \<Longrightarrow> I (next_state ext t q)"
    and crit: "\<And>q. I q \<Longrightarrow> I (call_criteria_init ext q)"
    and err: "\<And>q ptr. I q \<Longrightarrow> I (syntax_error input ptr q)"
  shows "I p'"
proof -
  let ?p1 = "p\<lparr>walk := skip_whitespace input (walk p)\<rparr>"
  have p1: "I ?p1" using assms(2) by (rule walk)
  obtain h q where t: "try_tokens ext input (tokens ext (state p)) ?p1 = Inr (h, q)"
    using assms(1) by (auto simp: loop_body_def Let_def split: sum.splits)
  have q: "I q"
    by (rule try_tokens_invariant[where I = I, OF t]) (use p1 walk stack nxt crit in auto)
  show ?thesis
  proof (cases h)
    case True
    with t assms(1) have "p' = q" by (simp add: loop_body_def Let_def)
    with q show ?thesis by simp
  next
    case False
    with t assms(1) have "p' = syntax_error input (tokens ext (state p)) q"
      by (simp add: loop_body_def Let_def)
    with err[OF q] show ?thesis by simp
  qed
qed




subsection \<open>Runs with the sample table\<close>

lemma move_ext_tokens [simp]: "tokens move_ext s = move_tokens s"
  by (simp add: move_ext_def)

lemma move_ext_handler:
  "ir_next_state (handler_output move_ext t p) = INITIAL"
  "ir_needs_tree_render (handler_output move_ext t p) = True"
  by (simp_all add: handler_output_def move_ext_def)

lemma move_ext_next_state_fields:
  "state (next_state move_ext t p) =
     (if tk_next_state t = CALL then INITIAL else tk_next_state t)"
  "calls (next_state move_ext t p) =
     calls p @ (if tk_next_state t = CALL
                then [Generated_call (tk_call_identifier t) (stack p) INITIAL True] else [])"
  by (simp_all add: next_state_state next_state_calls move_ext_handler)

lemma tok_fields [simp]:
  "tk_name tok_move = SQUOTE # ''move''" "tk_identifier tok_move = None"
  "tk_next_state tok_move = State 1"
  "tk_name tok_end = ''end''" "tk_next_state tok_end = INITIAL"
  "tk_name tok_left = SQUOTE # ''left''" "tk_identifier tok_left = Some ''direction''"
  "tk_next_state tok_left = State 2"
  "tk_name tok_right = SQUOTE # ''right''" "tk_identifier tok_right = Some ''direction''"
  "tk_next_state tok_right = State 2"
  "tk_name tok_end_call = ''end''" "tk_next_state tok_end_call = CALL"
  "tk_call_identifier tok_end_call = 7"
  by (simp_all add: tok_move_def tok_end_def tok_left_def tok_right_def tok_end_call_def)

lemma step_move:
  assumes "state p = INITIAL" and "skip_whitespace input (walk p) = w"
    and "strncasecmp (drop w input) ''move'' (length ''move'') = 0" and "w' = w + 4"
  shows "loop_body move_ext input p =
           Inr (True, next_state move_ext tok_move (p\<lparr>walk := w'\<rparr>))"
proof -
  let ?p1 = "p\<lparr>walk := w\<rparr>"
  have "try_token move_ext input tok_move ?p1 =
      Inr (True, next_state move_ext tok_move
                   (?p1\<lparr>stack := stack ?p1, walk := walk ?p1 + (length (tk_name tok_move) - 1)\<rparr>))"
    by (rule try_token_literal_match) (use assms(3) in \<open>simp_all add: char_at_def push_capture_def\<close>)
  then show ?thesis
    using assms(1,2,4) by (simp add: loop_body_def Let_def move_tokens_def eval_nat_numeral)
qed

lemma step_direction_left:
  assumes "state p = State 1" and "skip_whitespace input (walk p) = w"
    and "strncasecmp (drop w input) ''left'' (length ''left'') = 0"
    and "free_slot (stack p) 0" and "w' = w + 4"
  shows "loop_body move_ext input p =
           Inr (True, next_state move_ext tok_left
              (p\<lparr>stack := (stack p)[0 := capture_entry (Push_string ''direction'' ''left'')],
                 walk := w'\<rparr>))"
proof -
  let ?p1 = "p\<lparr>walk := w\<rparr>"
  have push: "push_string (stack p) ''direction'' ''left'' =
      Inr ((stack p)[0 := capture_entry (Push_string ''direction'' ''left'')])"
    using push_lowest_free[of 0 "stack p" "Push_string ''direction'' ''left''"] assms(4) by simp
  have "try_token move_ext input tok_left ?p1 =
      Inr (True, next_state move_ext tok_left
                   (?p1\<lparr>stack := (stack p)[0 := capture_entry (Push_string ''direction'' ''left'')],
                        walk := walk ?p1 + (length (tk_name tok_left) - 1)\<rparr>))"
    by (rule try_token_literal_match)
       (use assms(3) push in \<open>simp_all add: char_at_def push_capture_def del: capture_entry.simps\<close>)
  then show ?thesis
    using assms(1,2,5)
    by (simp add: loop_body_def Let_def move_tokens_def eval_nat_numeral del: capture_entry.simps)
qed

lemma step_direction_right:
  assumes "state p = State 1" and "skip_whitespace input (walk p) = w"
    and "strncasecmp (drop w input) ''left'' (length ''left'') \<noteq> 0"
    and "strncasecmp (drop w input) ''right'' (length ''right'') = 0"
    and "free_slot (stack p) 0" and "w' = w + 5"
  shows "loop_body move_ext input p =
           Inr (True, next_state move_ext tok_right
              (p\<lparr>stack := (stack p)[0 := capture_entry (Push_string ''direction'' ''right'')],
                 walk := w'\<rparr>))"
proof -
  let ?p1 = "p\<lparr>walk := w\<rparr>"
  have push: "push_string (stack p) ''direction'' ''right'' =
      Inr ((stack p)[0 := capture_entry (Push_string ''direction'' ''right'')])"
    using push_lowest_free[of 0 "stack p" "Push_string ''direction'' ''right''"] assms(5) by simp
  have l: "try_token move_ext input tok_left ?p1 = Inr (False, ?p1)"
    by (rule try_token_literal_mismatch) (use assms(3) in \<open>simp_all add: char_at_def\<close>)
  have "try_token move_ext input tok_right ?p1 =
      Inr (True, next_state move_ext tok_right
                   (?p1\<lparr>stack := (stack p)[0 := capture_entry (Push_string ''direction'' ''right'')],
                        walk := walk ?p1 + (length (tk_name tok_right) - 1)\<rparr>))"
    by (rule try_token_literal_match)
       (use assms(4) push in \<open>simp_all add: char_at_def push_capture_def del: capture_entry.simps\<close>)
  then show ?thesis
    using assms(1,2,6) l
    by (simp add: loop_body_def Let_def move_tokens_def eval_nat_numeral del: capture_entry.simps)
qed

lemma step_end_call_comma:
  assumes "state p = State 2" and "skip_whitespace input (walk p) = w"
    and "char_at input w = CHR '',''" and "w' = w + 1"
  shows "loop_body move_ext input p =
           Inr (True, (next_state move_ext tok_end_call (p\<lparr>walk := w\<rparr>))\<lparr>walk := w'\<rparr>)"
proof -
  let ?p1 = "p\<lparr>walk := w\<rparr>"
  have "try_token move_ext input tok_end_call ?p1 =
      Inr (True, (if char_at input (walk ?p1) = NUL \<or> char_at input (walk ?p1) = CHR '';''
                 then call_criteria_init move_ext (next_state move_ext tok_end_call ?p1)
                 else next_state move_ext tok_end_call ?p1)\<lparr>walk := walk ?p1 + 1\<rparr>)"
    by (rule try_token_end_match) (use assms(3) in simp_all)
  then show ?thesis
    using assms by (simp add: loop_body_def Let_def move_tokens_def)
qed

lemma step_end_call_reset:
  assumes "state p = State 2" and "skip_whitespace input (walk p) = w"
    and "char_at input w = NUL \<or> char_at input w = CHR '';''" and "w' = w + 1"
  shows "loop_body move_ext input p =
           Inr (True, (call_criteria_init move_ext
                         (next_state move_ext tok_end_call (p\<lparr>walk := w\<rparr>)))\<lparr>walk := w'\<rparr>)"
proof -
  let ?p1 = "p\<lparr>walk := w\<rparr>"
  have "try_token move_ext input tok_end_call ?p1 =
      Inr (True, (if char_at input (walk ?p1) = NUL \<or> char_at input (walk ?p1) = CHR '';''
                 then call_criteria_init move_ext (next_state move_ext tok_end_call ?p1)
                 else next_state move_ext tok_end_call ?p1)\<lparr>walk := walk ?p1 + 1\<rparr>)"
    by (rule try_token_end_match) (use assms(3) in auto)
  then show ?thesis
    using assms by (simp add: loop_body_def Let_def move_tokens_def)
qed

lemma free_slot_zero_stack: "free_slot zero_stack 0"
  by (simp add: zero_stack_free)


lemma try_token_criteria_inits:
  assumes "try_token ext input t p = Inr (h, p')"
  shows "criteria_inits (calls p') = criteria_inits (calls p) +
           (if tk_name t = ''end'' \<and>
               (char_at input (walk p) = NUL \<or> char_at input (walk p) = CHR '';'')
            then 1 else 0)"
  using assms
  by (auto simp: try_token_def Let_def next_state_calls
      split: if_splits sum.splits prod.splits option.splits)


subsection \<open>The loop ends\<close>

lemma skip_space_ge: "i \<le> skip_space s i"
proof (induction s i rule: skip_space.induct)
  case (1 s i)
  then show ?case by (subst skip_space.simps) (auto split: if_splits)
qed

lemma scan_digits_ge: "i \<le> fst (scan_digits s i acc)"
proof (induction s i acc rule: scan_digits.induct)
  case (1 s i acc)
  then show ?case by (subst scan_digits.simps) (auto split: if_splits)
qed

lemma strtol_end_ge:
  assumes "strtol s nptr = (num, e, err)"
  shows "nptr \<le> e"
proof -
  let ?i = "skip_space s nptr"
  let ?j = "if char_at s ?i = CHR ''-'' \<or> char_at s ?i = CHR ''+'' then ?i + 1 else ?i"
  have "nptr \<le> ?j" using skip_space_ge[of nptr s] by auto
  moreover have "?j \<le> fst (scan_digits s ?j 0)" by (rule scan_digits_ge)
  ultimately show ?thesis
    using assms by (auto simp: strtol_def Let_def split_beta split: if_splits)
qed

lemma skip_whitespace_ge: "w \<le> skip_whitespace input w"
proof (induction input w rule: skip_whitespace.induct)
  case (1 input w)
  then show ?case by (subst skip_whitespace.simps) (auto split: if_splits)
qed

lemma parse_string_cursor:
  assumes "parse_string input w as_word = (r, w')"
  shows "w \<le> w' \<and> (r \<noteq> None \<longrightarrow> w < w')"
  using assms scan_quoted_ge[of "w + 1" input] scan_string_ge[of w input] scan_word_ge[of w input]
  by (auto simp: parse_string_def Let_def split: if_splits)

lemma try_token_progress:
  assumes "try_token ext input t p = Inr (h, p')"
    and "char_at (tk_name t) 0 = SQUOTE \<longrightarrow> char_at (tk_name t) 1 \<noteq> NUL"
  shows "walk p \<le> walk p' \<and> (h \<longrightarrow> walk p < walk p')"
proof (cases "char_at (tk_name t) 0 = SQUOTE")
  case True
  with assms(2) have "1 < length (tk_name t)"
    by (auto simp: char_at_def split: if_splits)
  then show ?thesis
    using assms(1) True
    by (auto simp: try_token_def Let_def split: if_splits sum.splits)
next
  case False
  show ?thesis
  proof (cases "tk_name t = ''number''")
    case True
    obtain num e err where s: "strtol input (walk p) = (num, e, err)"
      by (cases "strtol input (walk p)") auto
    from strtol_end_ge[OF s] show ?thesis
      using assms(1) False True s
      by (auto simp: try_token_def Let_def split: if_splits sum.splits)
  next
    case nn: False
    show ?thesis
    proof (cases "tk_name t = ''string'' \<or> tk_name t = ''word''")
      case True
      obtain r w where s: "parse_string input (walk p) (char_at (tk_name t) 0 \<noteq> CHR ''s'') = (r, w)"
        by (cases "parse_string input (walk p) (char_at (tk_name t) 0 \<noteq> CHR ''s'')") auto
      from parse_string_cursor[OF s] show ?thesis
        using assms(1) False nn True s
        by (auto simp: try_token_def Let_def split: if_splits sum.splits option.splits)
    next
      case False
      then show ?thesis
        using assms(1) nn \<open>char_at (tk_name t) 0 \<noteq> SQUOTE\<close>
        by (auto simp: try_token_def Let_def split: if_splits)
    qed
  qed
qed

lemma try_tokens_progress:
  assumes "try_tokens ext input ts p = Inr (h, p')"
    and "\<forall>t\<in>set ts. char_at (tk_name t) 0 = SQUOTE \<longrightarrow> char_at (tk_name t) 1 \<noteq> NUL"
  shows "walk p \<le> walk p' \<and> (h \<longrightarrow> walk p < walk p')"
  using assms
proof (induction ts arbitrary: p)
  case Nil
  then show ?case by simp
next
  case (Cons t ts)
  show ?case
  proof (cases "try_token ext input t p")
    case (Inl e)
    with Cons.prems show ?thesis by simp
  next
    case (Inr hq)
    obtain h1 q where hq: "hq = (h1, q)" by (cases hq)
    have q: "walk p \<le> walk q \<and> (h1 \<longrightarrow> walk p < walk q)"
      using try_token_progress[of ext input t p h1 q] Inr hq Cons.prems(2) by simp
    show ?thesis
    proof (cases h1)
      case True
      with Cons.prems(1) Inr hq q show ?thesis by auto
    next
      case False
      with Cons.prems(1) Inr hq have "try_tokens ext input ts q = Inr (h, p')" by simp
      from Cons.IH[OF this] Cons.prems(2) q show ?thesis by auto
    qed
  qed
qed

lemma loop_body_progress:
  assumes "loop_body ext input p = Inr (True, p')"
    and "\<forall>t\<in>set (tokens ext (state p)).
           char_at (tk_name t) 0 = SQUOTE \<longrightarrow> char_at (tk_name t) 1 \<noteq> NUL"
  shows "walk p < walk p'"
proof -
  let ?p1 = "p\<lparr>walk := skip_whitespace input (walk p)\<rparr>"
  have "try_tokens ext input (tokens ext (state p)) ?p1 = Inr (True, p')"
    using assms(1) by (auto simp: loop_body_def Let_def split: sum.splits if_splits)
  from try_tokens_progress[OF this assms(2)] skip_whitespace_ge[of "walk p" input]
  show ?thesis by simp
qed

text \<open>
  With a table that has no literal with an empty text every round that goes on
  moves the cursor, so the loop ends and \<open>parse_command\<close> returns or exits.
\<close>

lemma parse_loop_returns:
  assumes "\<And>s t. t \<in> set (tokens ext s) \<Longrightarrow> char_at (tk_name t) 0 = SQUOTE \<Longrightarrow>
             char_at (tk_name t) 1 \<noteq> NUL"
  shows "\<exists>r. parse_loop ext input p = Some r"
proof (induction "Suc (strlen input) - walk p" arbitrary: p rule: less_induct)
  case less
  show ?case
  proof (cases "walk p \<le> strlen input")
    case False
    then show ?thesis by (simp add: parse_loop_exit)
  next
    case True
    show ?thesis
    proof (cases "loop_body ext input p")
      case (Inl e)
      then show ?thesis using True by (simp add: parse_loop_abort)
    next
      case (Inr cq)
      obtain c q where cq: "cq = (c, q)" by (cases cq)
      show ?thesis
      proof (cases c)
        case False
        then show ?thesis using True Inr cq by (simp add: parse_loop_break)
      next
        case c: True
        have "walk p < walk q"
          using loop_body_progress[of ext input p q] Inr cq c assms by auto
        then have "\<exists>r. parse_loop ext input q = Some r"
          using True by (intro less) simp
        then show ?thesis
          using parse_loop_continue[OF True, of ext q] Inr cq c by simp
      qed
    qed
  qed
qed

lemma parse_command_returns:
  assumes "\<And>s t. t \<in> set (tokens ext s) \<Longrightarrow> char_at (tk_name t) 0 = SQUOTE \<Longrightarrow>
             char_at (tk_name t) 1 \<noteq> NUL"
  shows "\<exists>r. parse_command ext input gen p = Some r"
proof -
  have "\<exists>r. parse_loop ext input (parse_command_start ext gen p) = Some r"
    by (rule parse_loop_returns) (rule assms)
  then obtain r where "parse_loop ext input (parse_command_start ext gen p) = Some r" ..
  then show ?thesis
    by (cases r) (simp_all add: parse_command_def)
qed

subsection \<open>A lone double quote\<close>

lemma try_token_word_no_match:
  assumes "tk_name t = ''word''" and "parse_string input (walk p) True = (None, w)"
  shows "try_token ext input t p = Inr (False, p\<lparr>walk := w\<rparr>)"
  using assms by (simp add: try_token_def char_at_def)

lemma lone_quote_accepted:
  "\<exists>p'. parse_command word_ext [DQUOTE] False parser0 = Some (Inr p') \<and>
         \<not> parse_error (result p') \<and> walk p' = 2"
proof -
  let ?inp = "[DQUOTE]"
  define p0 where "p0 = parse_command_start word_ext False parser0"
  have st0: "state p0 = INITIAL" and wk0: "walk p0 = 0" and rs0: "\<not> parse_error (result p0)"
    by (simp_all add: p0_def parse_command_start_fields)
  have len: "strlen ?inp = 1" by (simp add: strlen_def)
  have ws: "skip_whitespace ?inp (walk p0) = 0"
    by (simp add: wk0 skip_whitespace.simps char_at_def)
  have toks: "tokens word_ext (state p0) = [tok_word, tok_end]"
    by (simp add: word_ext_def move_ext_def)
  have w: "try_token word_ext ?inp tok_word (p0\<lparr>walk := 0\<rparr>) = Inr (False, p0\<lparr>walk := 1\<rparr>)"
    using try_token_word_no_match[of tok_word ?inp "p0\<lparr>walk := 0\<rparr>" 1 word_ext]
    by (simp add: tok_word_def parse_string_eval)
  define p1 where "p1 = (call_criteria_init word_ext
      (next_state word_ext tok_end (p0\<lparr>walk := 1\<rparr>)))\<lparr>walk := 2\<rparr>"
  have e: "try_token word_ext ?inp tok_end (p0\<lparr>walk := 1\<rparr>) = Inr (True, p1)"
    using try_token_end_match[of tok_end ?inp "p0\<lparr>walk := 1\<rparr>" word_ext]
    by (simp add: p1_def char_at_def)
  have b: "loop_body word_ext ?inp p0 = Inr (True, p1)"
    by (rule loop_body_continue) (use w e in \<open>simp add: toks ws\<close>)
  have wk1: "walk p1 = 2" and rs1: "\<not> parse_error (result p1)"
    by (simp_all add: p1_def rs0)
  have "parse_loop word_ext ?inp p0 = parse_loop word_ext ?inp p1"
    by (rule parse_loop_continue[OF _ b]) (simp add: wk0)
  also have "\<dots> = Some (Inr p1)"
    by (rule parse_loop_exit) (simp add: wk1 len)
  finally have "parse_command word_ext ?inp False parser0 = Some (Inr (parse_command_finish p1))"
    by (simp add: parse_command_def p0_def)
  then show ?thesis using rs1 wk1 by (simp add: parse_command_finish_fields)
qed

subsection \<open>The calls and the world\<close>

lemma replay_simps [simp]:
  "replay ext gen [] s = s"
  "replay ext gen (c # cs) s = replay ext gen cs (replay_call ext gen c s)"
  by (simp_all add: replay_def)

lemma replay_append [simp]:
  "replay ext gen (cs @ ds) s = replay ext gen ds (replay ext gen cs s)"
  by (simp add: replay_def)

lemma replay_call_Yajl [simp]: "replay_call ext gen (Yajl v) s = s"
  by (cases s) simp

lemma replay_map_Yajl [simp]: "replay ext gen (map Yajl ys) s = s"
  by (induction ys) simp_all

lemma criteria_inits_map_Yajl [simp]: "criteria_inits (map Yajl ys) = 0"
  by (induction ys) simp_all

lemma call_criteria_init_world:
  "(world (call_criteria_init ext p), subcommand_output (call_criteria_init ext p)) =
     cmd_criteria_init ext (world p) (subcommand_output p)"
  by (simp add: call_criteria_init_def split_beta)

lemma next_state_world:
  "(world (next_state ext t p), subcommand_output (next_state ext t p)) =
     (if tk_next_state t = CALL
      then GENERATED_call ext (world p) (stack p) (tk_call_identifier t)
             ((subcommand_output p)\<lparr>ir_json_gen := ir_json_gen (command_output p),
                                     ir_needs_tree_render := False\<rparr>)
      else (world p, subcommand_output p))"
  by (simp add: next_state_def Let_def split_beta)

lemma syntax_error_world:
  "world (syntax_error input ptr p) = world p"
  "subcommand_output (syntax_error input ptr p) = subcommand_output p"
  unfolding syntax_error_def Let_def fold_yajl_gen caret_map
  by simp_all

lemma parse_command_finish_world:
  "world (parse_command_finish p) = world p"
  "subcommand_output (parse_command_finish p) = subcommand_output p"
  "ir_json_gen (command_output (parse_command_finish p)) = ir_json_gen (command_output p)"
  by (simp_all add: parse_command_finish_def Let_def)

lemma parse_command_start_world:
  "(world (parse_command_start ext gen p), subcommand_output (parse_command_start ext gen p)) =
     cmd_criteria_init ext (world p) ((subcommand_output p)\<lparr>ir_execution_toggled := False\<rparr>)"
  by (simp add: parse_command_start_def Let_def call_criteria_init_world)

lemma world_follows_calls_start:
  "world_follows_calls ext gen (world p, (subcommand_output p)\<lparr>ir_execution_toggled := False\<rparr>)
     (parse_command_start ext gen p)"
  by (simp add: world_follows_calls_def parse_command_start_fields parse_command_start_world)

lemma world_follows_calls_finish:
  "world_follows_calls ext gen s p \<Longrightarrow> world_follows_calls ext gen s (parse_command_finish p)"
  by (simp add: world_follows_calls_def parse_command_finish_fields parse_command_finish_world)

lemma world_follows_calls_loop_body:
  assumes "world_follows_calls ext gen s p" and "loop_body ext input p = Inr (c, p')"
  shows "world_follows_calls ext gen s p'"
proof (rule loop_body_invariant[where I = "world_follows_calls ext gen s", OF assms(2) assms(1)])
  fix q w assume "world_follows_calls ext gen s q"
  then show "world_follows_calls ext gen s (q\<lparr>walk := w\<rparr>)"
    by (simp add: world_follows_calls_def)
next
  fix q stk assume "world_follows_calls ext gen s q"
  then show "world_follows_calls ext gen s (q\<lparr>stack := stk\<rparr>)"
    by (simp add: world_follows_calls_def)
next
  fix q t assume q: "world_follows_calls ext gen s q"
  then have "replay ext gen (calls q) s = (world q, subcommand_output q)"
    and "ir_json_gen (command_output q) = gen"
    by (simp_all add: world_follows_calls_def)
  then show "world_follows_calls ext gen s (next_state ext t q)"
    by (simp add: world_follows_calls_def next_state_world next_state_calls)
next
  fix q assume q: "world_follows_calls ext gen s q"
  then have "replay ext gen (calls q) s = (world q, subcommand_output q)"
    and "ir_json_gen (command_output q) = gen"
    by (simp_all add: world_follows_calls_def)
  then show "world_follows_calls ext gen s (call_criteria_init ext q)"
    by (simp add: world_follows_calls_def call_criteria_init_world)
next
  fix q ptr assume q: "world_follows_calls ext gen s q"
  then have "replay ext gen (calls q) s = (world q, subcommand_output q)"
    and "ir_json_gen (command_output q) = gen"
    by (simp_all add: world_follows_calls_def)
  then show "world_follows_calls ext gen s (syntax_error input ptr q)"
    by (simp add: world_follows_calls_def syntax_error_world syntax_error_calls
          syntax_error_fields)
qed

subsection \<open>The rounds of a run\<close>

lemma try_token_walk_le:
  assumes "try_token ext input t p = Inr (h, p')"
  shows "walk p \<le> walk p'"
proof (cases h)
  case False
  show ?thesis
  proof (cases "char_at (tk_name t) 0 = SQUOTE")
    case True
    with assms False show ?thesis
      by (auto simp: try_token_def Let_def split: if_splits sum.splits)
  next
    case nl: False
    show ?thesis
    proof (cases "tk_name t = ''number''")
      case True
      with assms False nl show ?thesis
        by (auto simp: try_token_def Let_def split: if_splits sum.splits prod.splits)
    next
      case nn: False
      show ?thesis
      proof (cases "tk_name t = ''string'' \<or> tk_name t = ''word''")
        case True
        obtain r w where s: "parse_string input (walk p) (char_at (tk_name t) 0 \<noteq> CHR ''s'') = (r, w)"
          by (cases "parse_string input (walk p) (char_at (tk_name t) 0 \<noteq> CHR ''s'')") auto
        from parse_string_cursor[OF s] show ?thesis
          using assms False nl nn True s
          by (auto simp: try_token_def Let_def split: if_splits sum.splits option.splits)
      next
        case False
        then show ?thesis
          using assms nn nl by (auto simp: try_token_def Let_def split: if_splits)
      qed
    qed
  qed
next
  case True
  with assms have "try_token ext input t p = Inr (True, p')" by simp
  show ?thesis
  proof (cases "char_at (tk_name t) 0 = SQUOTE")
    case True
    with assms show ?thesis
      by (auto simp: try_token_def Let_def split: if_splits sum.splits)
  next
    case nl: False
    show ?thesis
    proof (cases "tk_name t = ''number''")
      case True
      obtain num e err where s: "strtol input (walk p) = (num, e, err)"
        by (cases "strtol input (walk p)") auto
      from strtol_end_ge[OF s] show ?thesis
        using assms nl True s
        by (auto simp: try_token_def Let_def split: if_splits sum.splits)
    next
      case nn: False
      show ?thesis
      proof (cases "tk_name t = ''string'' \<or> tk_name t = ''word''")
        case True
        obtain r w where s: "parse_string input (walk p) (char_at (tk_name t) 0 \<noteq> CHR ''s'') = (r, w)"
          by (cases "parse_string input (walk p) (char_at (tk_name t) 0 \<noteq> CHR ''s'')") auto
        from parse_string_cursor[OF s] show ?thesis
          using assms nl nn True s
          by (auto simp: try_token_def Let_def split: if_splits sum.splits option.splits)
      next
        case False
        then show ?thesis
          using assms nn nl by (auto simp: try_token_def Let_def split: if_splits)
      qed
    qed
  qed
qed

lemma try_token_end_walk:
  assumes "try_token ext input t p = Inr (True, p')" and "tk_name t = ''end''"
  shows "walk p' = walk p + 1"
  using assms by (auto simp: try_token_def Let_def char_at_def split: if_splits)

lemma try_tokens_handled_by:
  assumes "try_tokens ext input ts p = Inr (True, p')"
  shows "\<exists>t pa. handled_by ext input ts p = Some (t, walk pa) \<and>
           try_token ext input t pa = Inr (True, p') \<and>
           calls pa = calls p \<and> walk p \<le> walk pa"
  using assms
proof (induction ts arbitrary: p)
  case Nil
  then show ?case by simp
next
  case (Cons t ts)
  show ?case
  proof (cases "try_token ext input t p")
    case (Inl e)
    with Cons.prems show ?thesis by simp
  next
    case (Inr hq)
    obtain h1 q where hq: "hq = (h1, q)" by (cases hq)
    show ?thesis
    proof (cases h1)
      case True
      with Cons.prems Inr hq have "try_token ext input t p = Inr (True, p')" by simp
      moreover have "handled_by ext input (t # ts) p = Some (t, walk p)"
        using Inr hq True by simp
      ultimately show ?thesis by blast
    next
      case False
      with Cons.prems Inr hq have "try_tokens ext input ts q = Inr (True, p')" by simp
      from Cons.IH[OF this] obtain t' pa where
        "handled_by ext input ts q = Some (t', walk pa)"
        "try_token ext input t' pa = Inr (True, p')" "calls pa = calls q" "walk q \<le> walk pa"
        by blast
      moreover have "calls q = calls p" "walk p \<le> walk q"
        using try_token_not_handled[of ext input t p q] try_token_walk_le[of ext input t p False q]
          Inr hq False by simp_all
      moreover have "handled_by ext input (t # ts) p = handled_by ext input ts q"
        using Inr hq False by simp
      ultimately show ?thesis by (intro exI[of _ t'] exI[of _ pa]) simp
    qed
  qed
qed

lemma try_tokens_not_handled_calls:
  assumes "try_tokens ext input ts p = Inr (False, p')"
  shows "calls p' = calls p"
  using assms
proof (induction ts arbitrary: p)
  case Nil
  then show ?case by simp
next
  case (Cons t ts)
  show ?case
  proof (cases "try_token ext input t p")
    case (Inl e)
    with Cons.prems show ?thesis by simp
  next
    case (Inr hq)
    obtain h1 q where hq: "hq = (h1, q)" by (cases hq)
    show ?thesis
    proof (cases h1)
      case True
      with Cons.prems Inr hq show ?thesis by simp
    next
      case False
      with Cons.prems Inr hq have "try_tokens ext input ts q = Inr (False, p')" by simp
      from Cons.IH[OF this] try_token_not_handled[of ext input t p q] Inr hq False
      show ?thesis by simp
    qed
  qed
qed

text \<open>
  A round that goes on is handled by one token; it calls \<open>cmd_criteria_init\<close> once
  if that token is an \<open>end\<close> token at the end of the input or at a semicolon, and
  not at all otherwise.
\<close>

lemma loop_body_round:
  assumes "loop_body ext input q = Inr (True, q')"
  shows "\<exists>t w. handled_by ext input (tokens ext (state q))
                  (q\<lparr>walk := skip_whitespace input (walk q)\<rparr>) = Some (t, w) \<and>
           walk q \<le> w \<and> w \<le> walk q' \<and> (tk_name t = ''end'' \<longrightarrow> w < walk q') \<and>
           criteria_inits (calls q') = criteria_inits (calls q) +
             (if tk_name t = ''end'' \<and> (char_at input w = NUL \<or> char_at input w = CHR '';'')
              then 1 else 0)"
proof -
  let ?p1 = "q\<lparr>walk := skip_whitespace input (walk q)\<rparr>"
  have "try_tokens ext input (tokens ext (state q)) ?p1 = Inr (True, q')"
    using assms by (auto simp: loop_body_def Let_def split: sum.splits if_splits)
  from try_tokens_handled_by[OF this] obtain t pa where
    h: "handled_by ext input (tokens ext (state q)) ?p1 = Some (t, walk pa)"
    and t: "try_token ext input t pa = Inr (True, q')"
    and c: "calls pa = calls q" and w: "skip_whitespace input (walk q) \<le> walk pa"
    by auto
  have "walk q \<le> walk pa" using w skip_whitespace_ge[of "walk q" input] by simp
  moreover have "walk pa \<le> walk q'" using try_token_walk_le[OF t] .
  moreover have "tk_name t = ''end'' \<longrightarrow> walk pa < walk q'"
    using try_token_end_walk[OF t] by simp
  moreover have "criteria_inits (calls q') = criteria_inits (calls q) +
      (if tk_name t = ''end'' \<and> (char_at input (walk pa) = NUL \<or> char_at input (walk pa) = CHR '';'')
       then 1 else 0)"
    using try_token_criteria_inits[OF t] c by simp
  ultimately show ?thesis using h by blast
qed

text \<open>The round that ends the loop after a syntax error does not call it.\<close>

lemma loop_body_break_criteria_inits:
  assumes "loop_body ext input q = Inr (False, pe)"
  shows "criteria_inits (calls pe) = criteria_inits (calls q)"
proof -
  let ?p1 = "q\<lparr>walk := skip_whitespace input (walk q)\<rparr>"
  obtain p2 where t: "try_tokens ext input (tokens ext (state q)) ?p1 = Inr (False, p2)"
    and pe: "pe = syntax_error input (tokens ext (state q)) p2"
    using assms by (auto simp: loop_body_def Let_def split: sum.splits if_splits)
  from try_tokens_not_handled_calls[OF t] show ?thesis
    by (simp add: pe syntax_error_calls)
qed

lemma loop_ends_criteria_inits:
  assumes "loop_ends ext input q pe"
  shows "criteria_inits (calls pe) = criteria_inits (calls q)"
  using assms loop_body_break_criteria_inits[of ext input q pe]
  by (auto simp: loop_ends_def split: if_splits)

lemma loop_ends_world:
  assumes "loop_ends ext input q pe" and "world_follows_calls ext gen s q"
  shows "world_follows_calls ext gen s pe"
  using assms world_follows_calls_loop_body[of ext gen s q input False pe]
  by (auto simp: loop_ends_def split: if_splits)

lemma loop_ends_parse_loop:
  assumes "loop_ends ext input q pe"
  shows "parse_loop ext input q = Some (Inr pe)"
  using assms by (auto simp: loop_ends_def parse_loop_exit parse_loop_break split: if_splits)

subsection \<open>Runs and their traces\<close>

lemma run_trace_loop_reaches:
  "run_trace ext input p q tr \<Longrightarrow> loop_reaches ext input p q"
  by (induction rule: run_trace.induct) (auto intro: loop_reaches.intros)

lemma loop_reaches_run_trace:
  "loop_reaches ext input p q \<Longrightarrow> \<exists>tr. run_trace ext input p q tr"
proof (induction rule: loop_reaches.induct)
  case start
  show ?case by (blast intro: run_trace.start)
next
  case (round q q')
  then obtain tr where "run_trace ext input p q tr" by blast
  moreover from loop_body_round[OF round.hyps(3)] obtain tw where
    "handled_by ext input (tokens ext (state q))
       (q\<lparr>walk := skip_whitespace input (walk q)\<rparr>) = Some tw" by auto
  ultimately show ?case using round.hyps(2,3) by (blast intro: run_trace.round)
qed

lemma end_resets_simps [simp]:
  "end_resets input [] = 0"
  "end_resets input (tr @ [(t, w)]) = end_resets input tr +
     (if tk_name t = ''end'' \<and> (char_at input w = NUL \<or> char_at input w = CHR '';'')
      then 1 else 0)"
  by (simp_all add: end_resets_def)

lemma end_at_simps [simp]:
  "end_at k [] = 0"
  "end_at k (tr @ [(t, w)]) = end_at k tr + (if tk_name t = ''end'' \<and> w = k then 1 else 0)"
  by (simp_all add: end_at_def)

lemma run_trace_criteria_inits:
  assumes "run_trace ext input p q tr"
  shows "criteria_inits (calls q) = criteria_inits (calls p) + end_resets input tr"
  using assms
proof (induction rule: run_trace.induct)
  case start
  show ?case by simp
next
  case (round q tr q' tw)
  obtain t w where tw: "tw = (t, w)" by (cases tw)
  from loop_body_round[OF round.hyps(3)] round.hyps(4) tw
  have "criteria_inits (calls q') = criteria_inits (calls q) +
      (if tk_name t = ''end'' \<and> (char_at input w = NUL \<or> char_at input w = CHR '';'')
       then 1 else 0)" by auto
  with round.IH tw show ?case by simp
qed

lemma run_trace_world:
  assumes "run_trace ext input p q tr" and "world_follows_calls ext gen s p"
  shows "world_follows_calls ext gen s q"
  using assms
  by (induction rule: run_trace.induct) (auto intro: world_follows_calls_loop_body)

text \<open>
  The cursor is behind every offset at which an \<open>end\<close> token has matched, so no
  two \<open>end\<close> tokens of a run match at the same offset.
\<close>

lemma run_trace_end_offsets:
  assumes "run_trace ext input p q tr"
  shows "(\<forall>(t, w) \<in> set tr. tk_name t = ''end'' \<longrightarrow> w < walk q) \<and> end_at k tr \<le> 1"
  using assms
proof (induction rule: run_trace.induct)
  case start
  show ?case by simp
next
  case (round q tr q' tw)
  obtain t w where tw: "tw = (t, w)" by (cases tw)
  from loop_body_round[OF round.hyps(3)] round.hyps(4) tw
  have w: "walk q \<le> w" "w \<le> walk q'" "tk_name t = ''end'' \<longrightarrow> w < walk q'" by auto
  have old: "\<forall>(t, w) \<in> set tr. tk_name t = ''end'' \<longrightarrow> w < walk q" using round.IH by simp
  have 1: "\<forall>(t, w) \<in> set (tr @ [tw]). tk_name t = ''end'' \<longrightarrow> w < walk q'"
    using old w tw by fastforce
  have "end_at k tr = 0" if "tk_name t = ''end''" "w = k"
  proof -
    have "\<forall>(t, w') \<in> set tr. tk_name t = ''end'' \<longrightarrow> w' \<noteq> k"
      using old w(1) that by fastforce
    then show ?thesis by (auto simp: end_at_def filter_empty_conv)
  qed
  then have 2: "end_at k (tr @ [tw]) \<le> 1"
    using round.IH tw by auto
  from 1 2 show ?case by simp
qed

lemma end_at_member:
  assumes "(t, k) \<in> set tr" and "tk_name t = ''end''"
  shows "1 \<le> end_at k tr"
proof -
  have "filter (\<lambda>(t, w). tk_name t = ''end'' \<and> w = k) tr \<noteq> []"
    using assms by (auto simp: filter_empty_conv)
  then show ?thesis by (simp add: end_at_def Suc_le_eq)
qed

text \<open>
  Two inputs that differ in one byte, a comma in the one and a semicolon in the
  other: an \<open>end\<close> token that matches there is a reset in the second only.
\<close>

lemma char_at_separator:
  "char_at (a @ c # b) w = (if w = length a then c else char_at (a @ d # b) w)"
  by (auto simp: char_at_def nth_append nth_Cons split: nat.splits)

lemma end_resets_separator:
  "end_resets (a @ CHR '';'' # b) tr = end_resets (a @ CHR '','' # b) tr + end_at (length a) tr"
proof (induction tr rule: rev_induct)
  case Nil
  show ?case by simp
next
  case (snoc tw tr)
  obtain t w where tw: "tw = (t, w)" by (cases tw)
  have "char_at (a @ CHR '';'' # b) w = (if w = length a then CHR '';'' else char_at (a @ CHR '','' # b) w)"
    by (rule char_at_separator)
  moreover have "w = length a \<Longrightarrow> char_at (a @ CHR '','' # b) w = CHR '',''"
    by (simp add: char_at_def)
  ultimately show ?case using snoc tw by auto
qed

text \<open>Every call of the loop that returns has a run and a trace.\<close>

lemma run_trace_prepend:
  assumes "run_trace ext input p1 q tr" and "walk p \<le> strlen input"
    and "loop_body ext input p = Inr (True, p1)"
    and "handled_by ext input (tokens ext (state p))
           (p\<lparr>walk := skip_whitespace input (walk p)\<rparr>) = Some tw"
  shows "run_trace ext input p q (tw # tr)"
  using assms
proof (induction rule: run_trace.induct)
  case start
  have "run_trace ext input p p1 ([] @ [tw])"
    by (rule run_trace.round[OF run_trace.start start(1,2,3)])
  then show ?case by simp
next
  case (round q tr q' tw')
  have "run_trace ext input p q (tw # tr)" using round by simp
  from run_trace.round[OF this round.hyps(2,3,4)] show ?case by simp
qed

lemma parse_loop_run_trace:
  assumes "parse_loop ext input p = Some (Inr r)"
  shows "\<exists>q tr. run_trace ext input p q tr \<and> loop_ends ext input q r"
proof -
  have "e = ext \<longrightarrow> i = input \<longrightarrow> (\<forall>r. res = Inr r \<longrightarrow>
          (\<exists>q tr. run_trace ext input p q tr \<and> loop_ends ext input q r))"
    if "parse_loop e i p = Some res" for e i p res
  proof (rule parse_loop.raw_induct[where P = "\<lambda>e i p res. e = ext \<longrightarrow> i = input \<longrightarrow>
      (\<forall>r. res = Inr r \<longrightarrow> (\<exists>q tr. run_trace ext input p q tr \<and> loop_ends ext input q r))",
      OF _ that], goal_cases)
    case (1 f e i p res)
    show ?case
    proof (intro allI impI)
      fix r assume e: "e = ext" and i: "i = input" and r: "res = Inr r"
      show "\<exists>q tr. run_trace ext input p q tr \<and> loop_ends ext input q r"
      proof (cases "walk p \<le> strlen input")
        case False
        with 1(2) r e i have "loop_ends ext input p r" by (simp add: loop_ends_def)
        then show ?thesis by (blast intro: run_trace.start)
      next
        case True
        show ?thesis
        proof (cases "loop_body ext input p")
          case (Inl err)
          with 1(2) True r e i show ?thesis by simp
        next
          case (Inr cq)
          obtain c p1 where cq: "cq = (c, p1)" by (cases cq)
          show ?thesis
          proof (cases c)
            case c: True
            then have "f ext input p1 = Some res"
              using 1(2) True Inr cq e i by simp
            from 1(1)[OF this] r obtain q tr where
              q: "run_trace ext input p1 q tr" "loop_ends ext input q r" by auto
            have b: "loop_body ext input p = Inr (True, p1)" using Inr cq c by simp
            from loop_body_round[OF b] obtain tw where
              "handled_by ext input (tokens ext (state p))
                 (p\<lparr>walk := skip_whitespace input (walk p)\<rparr>) = Some tw" by auto
            from run_trace_prepend[OF q(1) True b this] q(2) show ?thesis by blast
          next
            case False
            then have "r = p1" using 1(2) True Inr cq e i r by simp
            then have "loop_ends ext input p r"
              using True Inr cq False by (simp add: loop_ends_def)
            then show ?thesis by (blast intro: run_trace.start)
          qed
        qed
      qed
    qed
  qed
  with assms show ?thesis by blast
qed

subsection \<open>Traces with the sample table\<close>

lemma replay_move_ext:
  "fst (replay move_ext gen cs s) = fst s + criteria_inits cs"
proof (induction cs arbitrary: s)
  case Nil
  show ?case by simp
next
  case (Cons c cs)
  obtain w ir where s: "s = (w, ir)" by (cases s)
  have "fst (replay_call move_ext gen c s) = fst s + criteria_inits [c]"
    by (cases c) (simp_all add: s move_ext_def)
  then show ?case
    using Cons[of "replay_call move_ext gen c s"] by (cases c) simp_all
qed

lemma handled_move:
  assumes "state p = INITIAL" and "skip_whitespace input (walk p) = w"
    and "strncasecmp (drop w input) ''move'' (length ''move'') = 0"
  shows "handled_by move_ext input (tokens move_ext (state p))
           (p\<lparr>walk := skip_whitespace input (walk p)\<rparr>) = Some (tok_move, w)"
proof -
  let ?p1 = "p\<lparr>walk := w\<rparr>"
  have "try_token move_ext input tok_move ?p1 =
      Inr (True, next_state move_ext tok_move
                   (?p1\<lparr>stack := stack ?p1, walk := walk ?p1 + (length (tk_name tok_move) - 1)\<rparr>))"
    by (rule try_token_literal_match) (use assms(3) in \<open>simp_all add: char_at_def push_capture_def\<close>)
  then show ?thesis
    using assms(1,2) by (simp add: move_tokens_def)
qed

lemma handled_left:
  assumes "state p = State 1" and "skip_whitespace input (walk p) = w"
    and "strncasecmp (drop w input) ''left'' (length ''left'') = 0"
    and "free_slot (stack p) 0"
  shows "handled_by move_ext input (tokens move_ext (state p))
           (p\<lparr>walk := skip_whitespace input (walk p)\<rparr>) = Some (tok_left, w)"
proof -
  let ?p1 = "p\<lparr>walk := w\<rparr>"
  have push: "push_string (stack p) ''direction'' ''left'' =
      Inr ((stack p)[0 := capture_entry (Push_string ''direction'' ''left'')])"
    using push_lowest_free[of 0 "stack p" "Push_string ''direction'' ''left''"] assms(4) by simp
  have "try_token move_ext input tok_left ?p1 =
      Inr (True, next_state move_ext tok_left
                   (?p1\<lparr>stack := (stack p)[0 := capture_entry (Push_string ''direction'' ''left'')],
                        walk := walk ?p1 + (length (tk_name tok_left) - 1)\<rparr>))"
    by (rule try_token_literal_match)
       (use assms(3) push in \<open>simp_all add: char_at_def push_capture_def del: capture_entry.simps\<close>)
  then show ?thesis
    using assms(1,2) by (simp add: move_tokens_def eval_nat_numeral del: capture_entry.simps)
qed

lemma handled_right:
  assumes "state p = State 1" and "skip_whitespace input (walk p) = w"
    and "strncasecmp (drop w input) ''left'' (length ''left'') \<noteq> 0"
    and "strncasecmp (drop w input) ''right'' (length ''right'') = 0"
    and "free_slot (stack p) 0"
  shows "handled_by move_ext input (tokens move_ext (state p))
           (p\<lparr>walk := skip_whitespace input (walk p)\<rparr>) = Some (tok_right, w)"
proof -
  let ?p1 = "p\<lparr>walk := w\<rparr>"
  have push: "push_string (stack p) ''direction'' ''right'' =
      Inr ((stack p)[0 := capture_entry (Push_string ''direction'' ''right'')])"
    using push_lowest_free[of 0 "stack p" "Push_string ''direction'' ''right''"] assms(5) by simp
  have l: "try_token move_ext input tok_left ?p1 = Inr (False, ?p1)"
    by (rule try_token_literal_mismatch) (use assms(3) in \<open>simp_all add: char_at_def\<close>)
  have "try_token move_ext input tok_right ?p1 =
      Inr (True, next_state move_ext tok_right
                   (?p1\<lparr>stack := (stack p)[0 := capture_entry (Push_string ''direction'' ''right'')],
                        walk := walk ?p1 + (length (tk_name tok_right) - 1)\<rparr>))"
    by (rule try_token_literal_match)
       (use assms(4) push in \<open>simp_all add: char_at_def push_capture_def del: capture_entry.simps\<close>)
  then show ?thesis
    using assms(1,2) l by (simp add: move_tokens_def eval_nat_numeral del: capture_entry.simps)
qed

lemma handled_end_call:
  assumes "state p = State 2" and "skip_whitespace input (walk p) = w"
    and "char_at input w = NUL \<or> char_at input w = CHR '','' \<or> char_at input w = CHR '';''"
  shows "handled_by move_ext input (tokens move_ext (state p))
           (p\<lparr>walk := skip_whitespace input (walk p)\<rparr>) = Some (tok_end_call, w)"
proof -
  let ?p1 = "p\<lparr>walk := w\<rparr>"
  have "try_token move_ext input tok_end_call ?p1 =
      Inr (True, (if char_at input (walk ?p1) = NUL \<or> char_at input (walk ?p1) = CHR '';''
                 then call_criteria_init move_ext (next_state move_ext tok_end_call ?p1)
                 else next_state move_ext tok_end_call ?p1)\<lparr>walk := walk ?p1 + 1\<rparr>)"
    by (rule try_token_end_match) (use assms(3) in auto)
  then show ?thesis
    using assms(1,2) by (simp add: move_tokens_def)
qed

text \<open>
  The rounds of \<open>move left\<close>, a comma or a semicolon, \<open>move right\<close>: the same tokens
  at the same offsets with either separator.
\<close>

lemma trace_two_moves:
  assumes sep: "sep = CHR '','' \<or> sep = CHR '';''"
  shows "\<exists>q. run_trace move_ext (''move left'' @ sep # '' move right'')
                (parse_command_start move_ext False parser0) q
                [(tok_move, 0), (tok_left, 5), (tok_end_call, 9),
                 (tok_move, 11), (tok_right, 16), (tok_end_call, 21)] \<and>
              loop_ends move_ext (''move left'' @ sep # '' move right'') q q \<and>
              dispatch_flags (calls q) = [True, True] \<and> \<not> parse_error (result q)"
proof -
  let ?inp = "''move left'' @ sep # '' move right''"
  have sepf: "sep \<noteq> NUL" "sep \<noteq> SPC" "sep \<noteq> TAB" "sep \<noteq> CR" "sep \<noteq> LF"
    using sep by auto
  have len: "strlen ?inp = 21" using sepf by (simp add: strlen_def)
  note ev = skip_whitespace.simps char_at_def tolower_def Let_def

  define p0 where "p0 = parse_command_start move_ext False parser0"
  have st0: "state p0 = INITIAL" and wk0: "walk p0 = 0" and sk0: "stack p0 = zero_stack"
    and cl0: "calls p0 = [Criteria_init]" and rs0: "\<not> parse_error (result p0)"
    by (simp_all add: p0_def parse_command_start_fields parser0_def)

  define p1 where "p1 = next_state move_ext tok_move (p0\<lparr>walk := 4\<rparr>)"
  have b1: "loop_body move_ext ?inp p0 = Inr (True, p1)"
    unfolding p1_def by (rule step_move[where w = 0]) (simp_all add: st0 wk0 ev)
  have h1: "handled_by move_ext ?inp (tokens move_ext (state p0))
      (p0\<lparr>walk := skip_whitespace ?inp (walk p0)\<rparr>) = Some (tok_move, 0)"
    by (rule handled_move) (simp_all add: st0 wk0 ev)
  have st1: "state p1 = State 1" and wk1: "walk p1 = 4" and sk1: "stack p1 = zero_stack"
    and cl1: "calls p1 = [Criteria_init]" and rs1: "\<not> parse_error (result p1)"
    by (simp_all add: p1_def move_ext_next_state_fields next_state_stack sk0 cl0 rs0)

  define p2 where "p2 = next_state move_ext tok_left
      (p1\<lparr>stack := (stack p1)[0 := capture_entry (Push_string ''direction'' ''left'')],
           walk := 9\<rparr>)"
  have b2: "loop_body move_ext ?inp p1 = Inr (True, p2)"
    unfolding p2_def
    by (rule step_direction_left[where w = 5])
       (simp_all add: st1 wk1 sk1 free_slot_zero_stack ev)
  have h2: "handled_by move_ext ?inp (tokens move_ext (state p1))
      (p1\<lparr>walk := skip_whitespace ?inp (walk p1)\<rparr>) = Some (tok_left, 5)"
    by (rule handled_left) (simp_all add: st1 wk1 sk1 free_slot_zero_stack ev)
  have st2: "state p2 = State 2" and wk2: "walk p2 = 9" and sk2: "length (stack p2) = 10"
    and cl2: "calls p2 = [Criteria_init]" and rs2: "\<not> parse_error (result p2)"
    by (simp_all add: p2_def move_ext_next_state_fields next_state_stack sk1 cl1 rs1
          zero_stack_length del: capture_entry.simps)

  define q3 where "q3 = next_state move_ext tok_end_call (p2\<lparr>walk := 9\<rparr>)"
  define p3 where "p3 = (if sep = CHR '';'' then call_criteria_init move_ext q3 else q3)\<lparr>walk := 10\<rparr>"
  have b3: "loop_body move_ext ?inp p2 = Inr (True, p3)"
  proof (cases "sep = CHR '';''")
    case True
    then show ?thesis unfolding p3_def q3_def
      using step_end_call_reset[of p2 ?inp 9 10] by (simp add: st2 wk2 ev)
  next
    case False
    with sep have "sep = CHR '',''" by simp
    then show ?thesis unfolding p3_def q3_def
      using step_end_call_comma[of p2 ?inp 9 10] by (simp add: st2 wk2 ev)
  qed
  have h3: "handled_by move_ext ?inp (tokens move_ext (state p2))
      (p2\<lparr>walk := skip_whitespace ?inp (walk p2)\<rparr>) = Some (tok_end_call, 9)"
    by (rule handled_end_call) (use sep in \<open>auto simp: st2 wk2 ev\<close>)
  have st3: "state p3 = INITIAL" and wk3: "walk p3 = 10"
    and sk3: "free_slot (stack p3) 0" "length (stack p3) = 10"
    and cl3: "dispatch_flags (calls p3) = [True]" and rs3: "\<not> parse_error (result p3)"
    by (simp_all add: p3_def q3_def move_ext_next_state_fields next_state_stack sk2 cl2 rs2
          clear_stack_free)

  define p4 where "p4 = next_state move_ext tok_move (p3\<lparr>walk := 15\<rparr>)"
  have b4: "loop_body move_ext ?inp p3 = Inr (True, p4)"
    unfolding p4_def by (rule step_move[where w = 11]) (simp_all add: st3 wk3 ev)
  have h4: "handled_by move_ext ?inp (tokens move_ext (state p3))
      (p3\<lparr>walk := skip_whitespace ?inp (walk p3)\<rparr>) = Some (tok_move, 11)"
    by (rule handled_move) (simp_all add: st3 wk3 ev)
  have st4: "state p4 = State 1" and wk4: "walk p4 = 15"
    and sk4: "free_slot (stack p4) 0" "length (stack p4) = 10"
    and cl4: "dispatch_flags (calls p4) = [True]" and rs4: "\<not> parse_error (result p4)"
    by (simp_all add: p4_def move_ext_next_state_fields next_state_stack sk3 cl3 rs3)

  define p5 where "p5 = next_state move_ext tok_right
      (p4\<lparr>stack := (stack p4)[0 := capture_entry (Push_string ''direction'' ''right'')],
           walk := 21\<rparr>)"
  have b5: "loop_body move_ext ?inp p4 = Inr (True, p5)"
    unfolding p5_def
    by (rule step_direction_right[where w = 16]) (simp_all add: st4 wk4 sk4 ev)
  have h5: "handled_by move_ext ?inp (tokens move_ext (state p4))
      (p4\<lparr>walk := skip_whitespace ?inp (walk p4)\<rparr>) = Some (tok_right, 16)"
    by (rule handled_right) (simp_all add: st4 wk4 sk4 ev)
  have st5: "state p5 = State 2" and wk5: "walk p5 = 21"
    and cl5: "dispatch_flags (calls p5) = [True]" and rs5: "\<not> parse_error (result p5)"
    by (simp_all add: p5_def move_ext_next_state_fields next_state_stack sk4 cl4 rs4
          del: capture_entry.simps)

  define p6 where "p6 = (call_criteria_init move_ext
      (next_state move_ext tok_end_call (p5\<lparr>walk := 21\<rparr>)))\<lparr>walk := 22\<rparr>"
  have b6: "loop_body move_ext ?inp p5 = Inr (True, p6)"
    unfolding p6_def by (rule step_end_call_reset[where w = 21]) (simp_all add: st5 wk5 ev)
  have h6: "handled_by move_ext ?inp (tokens move_ext (state p5))
      (p5\<lparr>walk := skip_whitespace ?inp (walk p5)\<rparr>) = Some (tok_end_call, 21)"
    by (rule handled_end_call) (simp_all add: st5 wk5 ev)
  have wk6: "walk p6 = 22" and cl6: "dispatch_flags (calls p6) = [True, True]"
    and rs6: "\<not> parse_error (result p6)"
    by (simp_all add: p6_def move_ext_next_state_fields cl5 rs5)

  have "run_trace move_ext ?inp p0 p1 ([] @ [(tok_move, 0)])"
    by (rule run_trace.round[OF run_trace.start _ b1 h1]) (simp add: wk0)
  then have "run_trace move_ext ?inp p0 p2 (([] @ [(tok_move, 0)]) @ [(tok_left, 5)])"
    by (rule run_trace.round[OF _ _ b2 h2]) (use len in \<open>simp add: wk1\<close>)
  then have "run_trace move_ext ?inp p0 p3
      ((([] @ [(tok_move, 0)]) @ [(tok_left, 5)]) @ [(tok_end_call, 9)])"
    by (rule run_trace.round[OF _ _ b3 h3]) (use len in \<open>simp add: wk2\<close>)
  then have "run_trace move_ext ?inp p0 p4
      (((([] @ [(tok_move, 0)]) @ [(tok_left, 5)]) @ [(tok_end_call, 9)]) @ [(tok_move, 11)])"
    by (rule run_trace.round[OF _ _ b4 h4]) (use len in \<open>simp add: wk3\<close>)
  then have "run_trace move_ext ?inp p0 p5
      ((((([] @ [(tok_move, 0)]) @ [(tok_left, 5)]) @ [(tok_end_call, 9)]) @ [(tok_move, 11)]) @
        [(tok_right, 16)])"
    by (rule run_trace.round[OF _ _ b5 h5]) (use len in \<open>simp add: wk4\<close>)
  then have "run_trace move_ext ?inp p0 p6
      (((((([] @ [(tok_move, 0)]) @ [(tok_left, 5)]) @ [(tok_end_call, 9)]) @ [(tok_move, 11)]) @
        [(tok_right, 16)]) @ [(tok_end_call, 21)])"
    by (rule run_trace.round[OF _ _ b6 h6]) (use len in \<open>simp add: wk5\<close>)
  then have "run_trace move_ext ?inp p0 p6
      [(tok_move, 0), (tok_left, 5), (tok_end_call, 9),
       (tok_move, 11), (tok_right, 16), (tok_end_call, 21)]"
    by simp
  moreover have "loop_ends move_ext ?inp p6 p6"
    using len by (simp add: loop_ends_def wk6)
  ultimately show ?thesis
    using cl6 rs6 unfolding p0_def by blast
qed

text \<open>The rounds of \<open>move lft\<close>: one round that goes on, and a syntax error.\<close>

lemma trace_move_lft:
  "\<exists>q pe. run_trace move_ext ''move lft'' (parse_command_start move_ext False parser0) q
             [(tok_move, 0)] \<and>
           loop_ends move_ext ''move lft'' q pe \<and> parse_error (result pe)"
proof -
  let ?inp = "''move lft''"
  note ev = skip_whitespace.simps char_at_def tolower_def Let_def
  define p0 where "p0 = parse_command_start move_ext False parser0"
  have st0: "state p0 = INITIAL" and wk0: "walk p0 = 0"
    by (simp_all add: p0_def parse_command_start_fields)
  have len: "strlen ?inp = 8" by (simp add: strlen_def)
  define p1 where "p1 = next_state move_ext tok_move (p0\<lparr>walk := 4\<rparr>)"
  have b1: "loop_body move_ext ?inp p0 = Inr (True, p1)"
    unfolding p1_def by (rule step_move[where w = 0]) (simp_all add: st0 wk0 ev)
  have h1: "handled_by move_ext ?inp (tokens move_ext (state p0))
      (p0\<lparr>walk := skip_whitespace ?inp (walk p0)\<rparr>) = Some (tok_move, 0)"
    by (rule handled_move) (simp_all add: st0 wk0 ev)
  have st1: "state p1 = State 1" and wk1: "walk p1 = 4"
    by (simp_all add: p1_def move_ext_next_state_fields)
  have "run_trace move_ext ?inp p0 p1 ([] @ [(tok_move, 0)])"
    by (rule run_trace.round[OF run_trace.start _ b1 h1]) (simp add: wk0)
  then have 1: "run_trace move_ext ?inp p0 p1 [(tok_move, 0)]" by simp
  have toks: "tokens move_ext (state p1) = [tok_left, tok_right]"
    by (simp add: st1 move_tokens_def)
  have ws: "skip_whitespace ?inp (walk p1) = 5" by (simp add: wk1 ev)
  have l: "try_token move_ext ?inp tok_left (p1\<lparr>walk := 5\<rparr>) = Inr (False, p1\<lparr>walk := 5\<rparr>)"
    by (rule try_token_literal_mismatch) (simp_all add: ev eval_nat_numeral)
  have r: "try_token move_ext ?inp tok_right (p1\<lparr>walk := 5\<rparr>) = Inr (False, p1\<lparr>walk := 5\<rparr>)"
    by (rule try_token_literal_mismatch) (simp_all add: ev eval_nat_numeral)
  have 3: "try_tokens move_ext ?inp (tokens move_ext (state p1))
       (p1\<lparr>walk := skip_whitespace ?inp (walk p1)\<rparr>) = Inr (False, p1\<lparr>walk := 5\<rparr>)"
    unfolding toks ws using l r by simp
  have "loop_ends move_ext ?inp p1
      (syntax_error ?inp (tokens move_ext (state p1)) (p1\<lparr>walk := 5\<rparr>))"
    using loop_body_break[OF 3] by (simp add: loop_ends_def wk1 len)
  moreover have "parse_error (result (syntax_error ?inp (tokens move_ext (state p1)) (p1\<lparr>walk := 5\<rparr>)))"
    by (simp add: syntax_error_fields)
  ultimately show ?thesis using 1 unfolding p0_def by blast
qed


subsection \<open>The literal matcher\<close>

text \<open>
  C10: a literal token matches whenever its text is a prefix of the remaining
  input up to the case of letters. Nothing is asked of the character behind the
  prefix: the attempt succeeds and the cursor moves on by exactly the length of
  the literal.
\<close>

theorem literal_matches_case_insensitive_prefix:
  assumes "char_at (tk_name t) 0 = SQUOTE"
    and "length (tl (tk_name t)) \<le> length (drop (walk p) input)"
    and "map tolower (take (length (tl (tk_name t))) (drop (walk p) input)) =
         map tolower (tl (tk_name t))"
    and "push_capture t (\<lambda>i. push_string (stack p) i (tl (tk_name t))) (stack p) = Inr stk"
  shows "try_token ext input t p =
           Inr (True, next_state ext t
                        (p\<lparr>stack := stk, walk := walk p + length (tl (tk_name t))\<rparr>)) \<and>
         walk (next_state ext t (p\<lparr>stack := stk, walk := walk p + length (tl (tk_name t))\<rparr>)) =
           walk p + length (tl (tk_name t))"
proof -
  have "strncasecmp (drop (walk p) input) (tl (tk_name t)) (length (tl (tk_name t))) = 0"
    using assms(2,3) by (rule strncasecmp_prefix)
  then show ?thesis
    using try_token_literal_match[OF assms(1) _ assms(4), of input ext] by simp
qed

theorem literal_matches_case_insensitive_prefix_witness:
  "tokens move_ext INITIAL ! 0 =
     \<lparr>tk_name = SQUOTE # ''move'', tk_identifier = None, tk_next_state = State 1,
      tk_call_identifier = 0\<rparr> \<and>
   try_token move_ext ''MOVEleft''
     \<lparr>tk_name = SQUOTE # ''move'', tk_identifier = None, tk_next_state = State 1,
      tk_call_identifier = 0\<rparr> parser0 =
     Inr (True, next_state move_ext
                  \<lparr>tk_name = SQUOTE # ''move'', tk_identifier = None, tk_next_state = State 1,
                   tk_call_identifier = 0\<rparr> (parser0\<lparr>walk := 4\<rparr>)) \<and>
   walk (next_state move_ext
           \<lparr>tk_name = SQUOTE # ''move'', tk_identifier = None, tk_next_state = State 1,
            tk_call_identifier = 0\<rparr> (parser0\<lparr>walk := 4\<rparr>)) = 4 \<and>
   drop 4 ''MOVEleft'' = ''left''"
proof -
  let ?t = "\<lparr>tk_name = SQUOTE # ''move'', tk_identifier = None,
     tk_next_state = State 1, tk_call_identifier = 0\<rparr>"
  have w: "walk parser0 = 0" by (simp add: parser0_def)
  have 0: "tokens move_ext INITIAL ! 0 = ?t"
    by (simp add: move_ext_def move_tokens_def tok_move_def tok_end_def)
  have 1: "char_at (tk_name ?t) 0 = SQUOTE" by (simp add: char_at_def)
  have 2: "length (tl (tk_name ?t)) \<le> length (drop (walk parser0) ''MOVEleft'')"
    by (simp add: w)
  have 3: "map tolower (take (length (tl (tk_name ?t))) (drop (walk parser0) ''MOVEleft'')) =
         map tolower (tl (tk_name ?t))"
    by (simp add: w tolower_def char_of_eq_iff)
  have 4: "push_capture ?t (\<lambda>i. push_string (stack parser0) i (tl (tk_name ?t))) (stack parser0)
      = Inr (stack parser0)"
    by (simp add: push_capture_def)
  have 5: "parser0\<lparr>stack := stack parser0, walk := 4\<rparr> = parser0\<lparr>walk := 4\<rparr>"
    by simp
  have 6: "drop 4 ''MOVEleft'' = ''left''" by simp
  have 7: "walk parser0 + length (tl (tk_name ?t)) = 4" by (simp add: w)
  from literal_matches_case_insensitive_prefix[OF 1 2 3 4, of move_ext]
  have "try_token move_ext ''MOVEleft'' ?t parser0 =
          Inr (True, next_state move_ext ?t (parser0\<lparr>walk := 4\<rparr>)) \<and>
        walk (next_state move_ext ?t (parser0\<lparr>walk := 4\<rparr>)) = 4"
    unfolding 7 5 .
  with 0 6 show ?thesis by blast
qed

subsection \<open>The error report\<close>



subsection \<open>The empty input\<close>

text \<open>
  C6: for the empty input, with a table whose initial state has an \<open>end\<close> token
  that is no call and in front of it only tokens that cannot match at the end of
  the input (no \<open>end\<close>, no literal with an empty text), \<open>parse_command\<close> returns
  with \<open>parse_error\<close> false and without a dispatch. The loop is entered at offset
  0 = length, the \<open>end\<close> token matches the terminating 0-byte, and the cursor at
  offset 1 ends the loop.
\<close>

theorem empty_input_succeeds_without_dispatch:
  assumes "tokens ext INITIAL = pre @ t # post"
    and "\<forall>u\<in>set pre. tk_name u \<noteq> ''end'' \<and>
           (char_at (tk_name u) 0 = SQUOTE \<longrightarrow> char_at (tk_name u) 1 \<noteq> NUL)"
    and "tk_name t = ''end''" and "tk_next_state t \<noteq> CALL"
  shows "\<exists>p'. parse_command ext [] gen p = Some (Inr p') \<and>
           \<not> parse_error (result p') \<and> error_message (result p') = None \<and>
           dispatch_flags (calls p') = [] \<and> walk p' = 1"
proof -
  let ?s = "parse_command_start ext gen p"
  let ?q = "(call_criteria_init ext (next_state ext t ?s))\<lparr>walk := 1\<rparr>"
  have w: "walk ?s = 0" and st: "state ?s = INITIAL"
    by (simp_all add: parse_command_start_fields)
  have "try_token ext [] t ?s = Inr (True, ?q)"
    using try_token_end_match[OF assms(3), of "[]" ?s ext] w by (simp add: char_at_def)
  then have "try_tokens ext [] (tokens ext (state ?s)) (?s\<lparr>walk := skip_whitespace [] (walk ?s)\<rparr>)
      = Inr (True, ?q)"
    unfolding st assms(1) using try_tokens_empty_input[OF w assms(2), of ext "t # post"]
    by (simp add: walk_update_same[OF w])
  then have b: "loop_body ext [] ?s = Inr (True, ?q)" by (rule loop_body_continue)
  have "parse_loop ext [] ?s = parse_loop ext [] ?q"
    using b w by (intro parse_loop_continue) simp_all
  also have "\<dots> = Some (Inr ?q)" by (rule parse_loop_exit) simp
  finally have "parse_command ext [] gen p = Some (Inr (parse_command_finish ?q))"
    by (simp add: parse_command_def)
  moreover have "dispatch_flags (calls (parse_command_finish ?q)) = []"
    using assms(4)
    by (simp add: parse_command_finish_fields next_state_calls parse_command_start_fields)
  ultimately show ?thesis
    by (simp add: parse_command_finish_fields parse_command_start_fields)
qed

theorem empty_input_succeeds_without_dispatch_witness:
  "\<exists>p'. parse_command move_ext [] True parser0 = Some (Inr p') \<and>
         \<not> parse_error (result p') \<and> error_message (result p') = None \<and>
         dispatch_flags (calls p') = [] \<and> walk p' = 1"
proof -
  let ?t = "\<lparr>tk_name = ''end'', tk_identifier = None, tk_next_state = INITIAL,
          tk_call_identifier = 0\<rparr>"
  let ?m = "\<lparr>tk_name = SQUOTE # ''move'', tk_identifier = None, tk_next_state = State 1,
          tk_call_identifier = 0\<rparr>"
  have 1: "tokens move_ext INITIAL = [?m] @ ?t # []"
    by (simp add: move_ext_def move_tokens_def tok_move_def tok_end_def)
  have 2: "\<forall>u\<in>set [?m]. tk_name u \<noteq> ''end'' \<and>
           (char_at (tk_name u) 0 = SQUOTE \<longrightarrow> char_at (tk_name u) 1 \<noteq> NUL)"
    by (simp add: char_at_def)
  have 3: "tk_name ?t = ''end''" and 4: "tk_next_state ?t \<noteq> CALL" by simp_all
  from empty_input_succeeds_without_dispatch[OF 1 2 3 4] show ?thesis .
qed

subsection \<open>The tree render flag\<close>



subsection \<open>Resets of the selection context\<close>

lemma parse_command_run:
  assumes run: "run_trace ext input (parse_command_start ext gen p0) q tr"
  shows "criteria_inits (calls q) = 1 + end_resets input tr"
    and "world_follows_calls ext gen
           (world p0, (subcommand_output p0)\<lparr>ir_execution_toggled := False\<rparr>) q"
    and "loop_ends ext input q pe \<Longrightarrow>
           parse_command ext input gen p0 = Some (Inr (parse_command_finish pe)) \<and>
           criteria_inits (calls (parse_command_finish pe)) = 1 + end_resets input tr \<and>
           world_follows_calls ext gen
             (world p0, (subcommand_output p0)\<lparr>ir_execution_toggled := False\<rparr>)
             (parse_command_finish pe)"
proof -
  let ?s = "(world p0, (subcommand_output p0)\<lparr>ir_execution_toggled := False\<rparr>)"
  show c: "criteria_inits (calls q) = 1 + end_resets input tr"
    using run_trace_criteria_inits[OF run] by (simp add: parse_command_start_fields)
  show w: "world_follows_calls ext gen ?s q"
    using run_trace_world[OF run world_follows_calls_start] .
  assume e: "loop_ends ext input q pe"
  have "parse_loop ext input (parse_command_start ext gen p0) = Some (Inr pe)"
    using loop_reaches_parse_loop[OF run_trace_loop_reaches[OF run]] loop_ends_parse_loop[OF e]
    by simp
  then have 1: "parse_command ext input gen p0 = Some (Inr (parse_command_finish pe))"
    by (simp add: parse_command_def)
  have 2: "criteria_inits (calls (parse_command_finish pe)) = 1 + end_resets input tr"
    using loop_ends_criteria_inits[OF e] c by (simp add: parse_command_finish_fields)
  have 3: "world_follows_calls ext gen ?s (parse_command_finish pe)"
    using world_follows_calls_finish[OF loop_ends_world[OF e w]] .
  from 1 2 3 show "parse_command ext input gen p0 = Some (Inr (parse_command_finish pe)) \<and>
           criteria_inits (calls (parse_command_finish pe)) = 1 + end_resets input tr \<and>
           world_follows_calls ext gen ?s (parse_command_finish pe)" by blast
qed

lemma parse_command_has_run:
  assumes "parse_command ext input gen p0 = Some (Inr r)"
  shows "\<exists>q tr pe. run_trace ext input (parse_command_start ext gen p0) q tr \<and>
           loop_ends ext input q pe \<and> r = parse_command_finish pe"
proof -
  obtain pe where l: "parse_loop ext input (parse_command_start ext gen p0) = Some (Inr pe)"
    and r: "r = parse_command_finish pe"
    using assms by (auto simp: parse_command_def split: option.splits sum.splits)
  from parse_loop_run_trace[OF l] r show ?thesis by blast
qed

lemma separator_resets:
  assumes c: "run_trace ext (a @ CHR '','' # b) (parse_command_start ext gen p0) qc tr"
    and s: "run_trace ext (a @ CHR '';'' # b) (parse_command_start ext gen p0) qs tr"
    and m: "(te, length a) \<in> set tr" "tk_name te = ''end''"
  shows "criteria_inits (calls qc) + 1 = criteria_inits (calls qs)"
proof -
  have "end_at (length a) tr = 1"
    using end_at_member[OF m] run_trace_end_offsets[OF c, of "length a"] by simp
  then show ?thesis
    using parse_command_run(1)[OF c] parse_command_run(1)[OF s] end_resets_separator[of a b tr]
    by simp
qed

text \<open>
  C4: a call of \<open>parse_command\<close> calls \<open>cmd_criteria_init\<close> once in front of its
  loop and then once in every round of the loop in which an \<open>end\<close> token matches
  at the end of the input or at a semicolon, and at no other place: not when an
  \<open>end\<close> token matches at a comma, not for another token, not in the round that
  reports a syntax error, not behind the loop. At every head of the loop, and in
  the parser the call returns, the number of calls is one more than the number of
  those rounds, and the world is the one that the logged calls, made one after
  the other, leave. Every call that returns is such a run. One attempt of a token
  that returns calls it once if the token is an \<open>end\<close> token at the end of the
  input or at a semicolon, and not otherwise. Hence, when two inputs differ in
  one separator, a comma in the one and a semicolon in the other, and both are
  parsed with the same tokens at the same offsets, an \<open>end\<close> token at the
  separator, the call on the input with the comma makes one call of
  \<open>cmd_criteria_init\<close> fewer.
\<close>

theorem criteria_init_at_end_of_command:
  "(run_trace ext input (parse_command_start ext gen p0) q tr \<longrightarrow>
      criteria_inits (calls q) = 1 + end_resets input tr \<and>
      world_follows_calls ext gen
        (world p0, (subcommand_output p0)\<lparr>ir_execution_toggled := False\<rparr>) q \<and>
      (loop_ends ext input q pe \<longrightarrow>
         parse_command ext input gen p0 = Some (Inr (parse_command_finish pe)) \<and>
         criteria_inits (calls (parse_command_finish pe)) = 1 + end_resets input tr \<and>
         world_follows_calls ext gen
           (world p0, (subcommand_output p0)\<lparr>ir_execution_toggled := False\<rparr>)
           (parse_command_finish pe))) \<and>
   (parse_command ext input gen p0 = Some (Inr r) \<longrightarrow>
      (\<exists>q tr pe. run_trace ext input (parse_command_start ext gen p0) q tr \<and>
         loop_ends ext input q pe \<and> r = parse_command_finish pe \<and>
         criteria_inits (calls r) = 1 + end_resets input tr \<and>
         world_follows_calls ext gen
           (world p0, (subcommand_output p0)\<lparr>ir_execution_toggled := False\<rparr>) r)) \<and>
   (try_token ext input t p = Inr (h, p') \<longrightarrow>
      criteria_inits (calls p') = criteria_inits (calls p) +
        (if tk_name t = ''end'' \<and>
            (char_at input (walk p) = NUL \<or> char_at input (walk p) = CHR '';'')
         then 1 else 0)) \<and>
   (run_trace ext (a @ CHR '','' # b) (parse_command_start ext gen p0) qc trs \<and>
    loop_ends ext (a @ CHR '','' # b) qc pc \<and>
    run_trace ext (a @ CHR '';'' # b) (parse_command_start ext gen p0) qs trs \<and>
    loop_ends ext (a @ CHR '';'' # b) qs ps \<and>
    (te, length a) \<in> set trs \<and> tk_name te = ''end'' \<longrightarrow>
      parse_command ext (a @ CHR '','' # b) gen p0 = Some (Inr (parse_command_finish pc)) \<and>
      parse_command ext (a @ CHR '';'' # b) gen p0 = Some (Inr (parse_command_finish ps)) \<and>
      criteria_inits (calls (parse_command_finish pc)) + 1 =
        criteria_inits (calls (parse_command_finish ps)))"
proof (intro conjI impI)
  assume run: "run_trace ext input (parse_command_start ext gen p0) q tr"
  show "criteria_inits (calls q) = 1 + end_resets input tr"
    by (rule parse_command_run(1)[OF run])
  show "world_follows_calls ext gen
        (world p0, (subcommand_output p0)\<lparr>ir_execution_toggled := False\<rparr>) q"
    by (rule parse_command_run(2)[OF run])
  assume e: "loop_ends ext input q pe"
  from parse_command_run(3)[OF run e]
  show "parse_command ext input gen p0 = Some (Inr (parse_command_finish pe))"
    and "criteria_inits (calls (parse_command_finish pe)) = 1 + end_resets input tr"
    and "world_follows_calls ext gen
           (world p0, (subcommand_output p0)\<lparr>ir_execution_toggled := False\<rparr>)
           (parse_command_finish pe)"
    by simp_all
next
  assume "parse_command ext input gen p0 = Some (Inr r)"
  from parse_command_has_run[OF this] obtain q tr pe where
    run: "run_trace ext input (parse_command_start ext gen p0) q tr"
    and e: "loop_ends ext input q pe" and r: "r = parse_command_finish pe" by blast
  from parse_command_run(3)[OF run e] run e r
  show "\<exists>q tr pe. run_trace ext input (parse_command_start ext gen p0) q tr \<and>
         loop_ends ext input q pe \<and> r = parse_command_finish pe \<and>
         criteria_inits (calls r) = 1 + end_resets input tr \<and>
         world_follows_calls ext gen
           (world p0, (subcommand_output p0)\<lparr>ir_execution_toggled := False\<rparr>) r"
    by blast
next
  assume "try_token ext input t p = Inr (h, p')"
  then show "criteria_inits (calls p') = criteria_inits (calls p) +
        (if tk_name t = ''end'' \<and>
            (char_at input (walk p) = NUL \<or> char_at input (walk p) = CHR '';'')
         then 1 else 0)"
    by (rule try_token_criteria_inits)
next
  assume h: "run_trace ext (a @ CHR '','' # b) (parse_command_start ext gen p0) qc trs \<and>
    loop_ends ext (a @ CHR '','' # b) qc pc \<and>
    run_trace ext (a @ CHR '';'' # b) (parse_command_start ext gen p0) qs trs \<and>
    loop_ends ext (a @ CHR '';'' # b) qs ps \<and>
    (te, length a) \<in> set trs \<and> tk_name te = ''end''"
  then have c: "run_trace ext (a @ CHR '','' # b) (parse_command_start ext gen p0) qc trs"
    and ce: "loop_ends ext (a @ CHR '','' # b) qc pc"
    and s: "run_trace ext (a @ CHR '';'' # b) (parse_command_start ext gen p0) qs trs"
    and se: "loop_ends ext (a @ CHR '';'' # b) qs ps"
    and m: "(te, length a) \<in> set trs" "tk_name te = ''end''"
    by simp_all
  from parse_command_run(3)[OF c ce]
  show "parse_command ext (a @ CHR '','' # b) gen p0 = Some (Inr (parse_command_finish pc))"
    by simp
  from parse_command_run(3)[OF s se]
  show "parse_command ext (a @ CHR '';'' # b) gen p0 = Some (Inr (parse_command_finish ps))"
    by simp
  have "criteria_inits (calls (parse_command_finish pc)) = criteria_inits (calls qc)"
    using parse_command_run(3)[OF c ce] parse_command_run(1)[OF c] by simp
  moreover have "criteria_inits (calls (parse_command_finish ps)) = criteria_inits (calls qs)"
    using parse_command_run(3)[OF s se] parse_command_run(1)[OF s] by simp
  ultimately show "criteria_inits (calls (parse_command_finish pc)) + 1 =
        criteria_inits (calls (parse_command_finish ps))"
    using separator_resets[OF c s m] by simp
qed

theorem criteria_init_at_end_of_command_witness:
  "(\<exists>pc ps. parse_command move_ext ''move left, move right'' False parser0 = Some (Inr pc) \<and>
      parse_command move_ext ''move left; move right'' False parser0 = Some (Inr ps) \<and>
      dispatch_flags (calls pc) = [True, True] \<and> dispatch_flags (calls ps) = [True, True] \<and>
      criteria_inits (calls pc) = 2 \<and> world pc = 2 \<and>
      criteria_inits (calls ps) = 3 \<and> world ps = 3 \<and>
      criteria_inits (calls pc) + 1 = criteria_inits (calls ps)) \<and>
   (\<exists>pl. parse_command move_ext ''move lft'' False parser0 = Some (Inr pl) \<and>
      parse_error (result pl) \<and> criteria_inits (calls pl) = 1 \<and> world pl = 1 \<and>
      (\<exists>q tr pe. run_trace move_ext ''move lft'' (parse_command_start move_ext False parser0) q tr \<and>
         loop_ends move_ext ''move lft'' q pe \<and> pl = parse_command_finish pe \<and>
         criteria_inits (calls pl) = 1 + end_resets ''move lft'' tr)) \<and>
   try_token move_ext '';'' tok_end_call parser0 =
     Inr (True, (call_criteria_init move_ext (next_state move_ext tok_end_call parser0))\<lparr>walk := 1\<rparr>) \<and>
   criteria_inits
     (calls ((call_criteria_init move_ext (next_state move_ext tok_end_call parser0))\<lparr>walk := 1\<rparr>)) =
     criteria_inits (calls parser0) + 1 \<and>
   try_token move_ext '','' tok_end_call parser0 =
     Inr (True, (next_state move_ext tok_end_call parser0)\<lparr>walk := 1\<rparr>) \<and>
   criteria_inits (calls ((next_state move_ext tok_end_call parser0)\<lparr>walk := 1\<rparr>)) =
     criteria_inits (calls parser0) + 0"
proof -
  let ?s = "(world parser0, (subcommand_output parser0)\<lparr>ir_execution_toggled := False\<rparr>)"
  let ?start = "parse_command_start move_ext False parser0"
  let ?tr = "[(tok_move, 0), (tok_left, 5), (tok_end_call, 9),
              (tok_move, 11), (tok_right, 16), (tok_end_call, 21::nat)]"
  let ?ic = "''move left'' @ CHR '','' # '' move right''"
  let ?is = "''move left'' @ CHR '';'' # '' move right''"
  have w0: "fst ?s = 0" by (simp add: parser0_def)
  have world: "world x = criteria_inits (calls x)"
    if "world_follows_calls move_ext False ?s x" for x
  proof -
    have "world x = fst (replay move_ext False (calls x) ?s)"
      using that unfolding world_follows_calls_def by (metis fst_conv)
    then show ?thesis using replay_move_ext[of False "calls x" ?s] w0 by simp
  qed
  have gen: "\<not> ir_json_gen (command_output x)"
    if "world_follows_calls move_ext False ?s x" for x
    using that by (simp add: world_follows_calls_def)

  obtain qc where c: "run_trace move_ext ?ic ?start qc ?tr" and ce: "loop_ends move_ext ?ic qc qc"
    and cd: "dispatch_flags (calls qc) = [True, True]"
    using trace_two_moves[of "CHR '',''"] by auto
  obtain qs where s: "run_trace move_ext ?is ?start qs ?tr" and se: "loop_ends move_ext ?is qs qs"
    and sd: "dispatch_flags (calls qs) = [True, True]"
    using trace_two_moves[of "CHR '';''"] by auto
  have rc: "end_resets ?ic ?tr = 1" by (simp add: end_resets_def char_at_def)
  have rs: "end_resets ?is ?tr = 2" by (simp add: end_resets_def char_at_def)

  from criteria_init_at_end_of_command[where ext = move_ext and input = ?ic and gen = False
      and ?p0.0 = parser0 and q = qc and tr = ?tr and pe = qc, THEN conjunct1] c ce
  have c1: "parse_command move_ext ?ic False parser0 = Some (Inr (parse_command_finish qc))"
    and c2: "criteria_inits (calls (parse_command_finish qc)) = 1 + end_resets ?ic ?tr"
    and c3: "world_follows_calls move_ext False ?s (parse_command_finish qc)"
    and c4: "world_follows_calls move_ext False ?s qc"
    by blast+
  from criteria_init_at_end_of_command[where ext = move_ext and input = ?is and gen = False
      and ?p0.0 = parser0 and q = qs and tr = ?tr and pe = qs, THEN conjunct1] s se
  have s1: "parse_command move_ext ?is False parser0 = Some (Inr (parse_command_finish qs))"
    and s2: "criteria_inits (calls (parse_command_finish qs)) = 1 + end_resets ?is ?tr"
    and s3: "world_follows_calls move_ext False ?s (parse_command_finish qs)"
    and s4: "world_follows_calls move_ext False ?s qs"
    by blast+
  have m: "(tok_end_call, length ''move left'') \<in> set ?tr" "tk_name tok_end_call = ''end''"
    by simp_all
  from criteria_init_at_end_of_command[where ext = move_ext and gen = False and ?p0.0 = parser0
      and a = "''move left''" and b = "'' move right''" and qc = qc and pc = qc and qs = qs
      and ps = qs and trs = ?tr and te = tok_end_call,
      THEN conjunct2, THEN conjunct2, THEN conjunct2] c ce s se m
  have fewer: "criteria_inits (calls (parse_command_finish qc)) + 1 =
      criteria_inits (calls (parse_command_finish qs))"
    by blast
  have first: "\<exists>pc ps. parse_command move_ext ''move left, move right'' False parser0 = Some (Inr pc) \<and>
      parse_command move_ext ''move left; move right'' False parser0 = Some (Inr ps) \<and>
      dispatch_flags (calls pc) = [True, True] \<and> dispatch_flags (calls ps) = [True, True] \<and>
      criteria_inits (calls pc) = 2 \<and> world pc = 2 \<and>
      criteria_inits (calls ps) = 3 \<and> world ps = 3 \<and>
      criteria_inits (calls pc) + 1 = criteria_inits (calls ps)"
  proof -
    have f1: "parse_command move_ext ''move left, move right'' False parser0 =
        Some (Inr (parse_command_finish qc))" using c1 by simp
    have f2: "parse_command move_ext ''move left; move right'' False parser0 =
        Some (Inr (parse_command_finish qs))" using s1 by simp
    have f3: "dispatch_flags (calls (parse_command_finish qc)) = [True, True]"
      using cd gen[OF c4] by (simp add: parse_command_finish_fields)
    have f4: "dispatch_flags (calls (parse_command_finish qs)) = [True, True]"
      using sd gen[OF s4] by (simp add: parse_command_finish_fields)
    have cc: "criteria_inits (calls (parse_command_finish qc)) = 2" using c2 rc by simp
    have f6: "world (parse_command_finish qc) = 2" using world[OF c3] cc by simp
    have sc: "criteria_inits (calls (parse_command_finish qs)) = 3" using s2 rs by simp
    have f8: "world (parse_command_finish qs) = 3" using world[OF s3] sc by simp
    have f9: "criteria_inits (calls (parse_command_finish qc)) + 1 =
      criteria_inits (calls (parse_command_finish qs))" by (rule fewer)
    from f1 f2 f3 f4 cc f6 sc f8 f9 show ?thesis by blast
  qed

  obtain ql pe where l: "run_trace move_ext ''move lft'' ?start ql [(tok_move, 0)]"
    and le: "loop_ends move_ext ''move lft'' ql pe" and lp: "parse_error (result pe)"
    using trace_move_lft by auto
  from criteria_init_at_end_of_command[where ext = move_ext and input = "''move lft''"
      and gen = False and ?p0.0 = parser0 and q = ql and tr = "[(tok_move, 0)]" and pe = pe,
      THEN conjunct1] l le
  have l1: "parse_command move_ext ''move lft'' False parser0 = Some (Inr (parse_command_finish pe))"
    and l2: "criteria_inits (calls (parse_command_finish pe)) = 1 + end_resets ''move lft'' [(tok_move, 0)]"
    and l3: "world_follows_calls move_ext False ?s (parse_command_finish pe)"
    by blast+
  from criteria_init_at_end_of_command[where ext = move_ext and input = "''move lft''"
      and gen = False and ?p0.0 = parser0 and r = "parse_command_finish pe",
      THEN conjunct2, THEN conjunct1] l1
  have l4: "\<exists>q tr pe'. run_trace move_ext ''move lft'' ?start q tr \<and>
         loop_ends move_ext ''move lft'' q pe' \<and> parse_command_finish pe = parse_command_finish pe' \<and>
         criteria_inits (calls (parse_command_finish pe)) = 1 + end_resets ''move lft'' tr"
    by blast
  have lc: "criteria_inits (calls (parse_command_finish pe)) = 1"
    using l2 by (simp add: end_resets_def)
  have second: "\<exists>pl. parse_command move_ext ''move lft'' False parser0 = Some (Inr pl) \<and>
      parse_error (result pl) \<and> criteria_inits (calls pl) = 1 \<and> world pl = 1 \<and>
      (\<exists>q tr pe. run_trace move_ext ''move lft'' ?start q tr \<and>
         loop_ends move_ext ''move lft'' q pe \<and> pl = parse_command_finish pe \<and>
         criteria_inits (calls pl) = 1 + end_resets ''move lft'' tr)"
    using l1 lp lc world[OF l3] l4
    by (intro exI[of _ "parse_command_finish pe"]) (simp add: parse_command_finish_fields)

  have w: "walk parser0 = 0" by (simp add: parser0_def)
  have ts: "try_token move_ext '';'' tok_end_call parser0 =
     Inr (True, (call_criteria_init move_ext (next_state move_ext tok_end_call parser0))\<lparr>walk := 1\<rparr>)"
    using try_token_end_match[of tok_end_call "'';''" parser0 move_ext]
    by (simp add: w char_at_def)
  have tc: "try_token move_ext '','' tok_end_call parser0 =
     Inr (True, (next_state move_ext tok_end_call parser0)\<lparr>walk := 1\<rparr>)"
    using try_token_end_match[of tok_end_call "'',''" parser0 move_ext]
    by (simp add: w char_at_def)
  have sc: "tk_name tok_end_call = ''end'' \<and>
      (char_at '';'' (walk parser0) = NUL \<or> char_at '';'' (walk parser0) = CHR '';'')"
    by (simp add: w char_at_def)
  have cc: "\<not> (tk_name tok_end_call = ''end'' \<and>
      (char_at '','' (walk parser0) = NUL \<or> char_at '','' (walk parser0) = CHR '';''))"
    by (simp add: w char_at_def)
  from criteria_init_at_end_of_command[where ext = move_ext and input = "'';''"
      and t = tok_end_call and p = parser0 and h = True
      and p' = "(call_criteria_init move_ext (next_state move_ext tok_end_call parser0))\<lparr>walk := 1\<rparr>",
      THEN conjunct2, THEN conjunct2, THEN conjunct1] ts sc
  have a1: "criteria_inits
     (calls ((call_criteria_init move_ext (next_state move_ext tok_end_call parser0))\<lparr>walk := 1\<rparr>)) =
     criteria_inits (calls parser0) + 1"
    by (simp only: if_True simp_thms)
  from criteria_init_at_end_of_command[where ext = move_ext and input = "'',''"
      and t = tok_end_call and p = parser0 and h = True
      and p' = "(next_state move_ext tok_end_call parser0)\<lparr>walk := 1\<rparr>",
      THEN conjunct2, THEN conjunct2, THEN conjunct1] tc cc
  have a2: "criteria_inits (calls ((next_state move_ext tok_end_call parser0)\<lparr>walk := 1\<rparr>)) =
     criteria_inits (calls parser0) + 0"
    by (simp only: if_False simp_thms)
  from first second ts a1 tc a2 show ?thesis by blast
qed


subsection \<open>The cursor after a failed attempt\<close>

text \<open>
  C2, at the failing input: on an empty quoted value, closed by a quote or by the
  end of the input, \<open>parse_string\<close> returns \<open>NULL\<close> and leaves the cursor behind the
  opening quote, one byte further than it was. The tokens that follow in the
  state are tried there: with a table that takes a word or the end of the
  command, the input that is one double quote is parsed without an error.
\<close>

theorem parse_string_empty_quoted_moves_cursor:
  "parse_string [DQUOTE, DQUOTE] 0 False = (None, 1) \<and>
   parse_string [DQUOTE, DQUOTE] 0 True = (None, 1) \<and>
   parse_string [DQUOTE] 0 False = (None, 1) \<and>
   parse_string [DQUOTE] 0 True = (None, 1) \<and>
   (\<exists>p'. parse_command word_ext [DQUOTE] False parser0 = Some (Inr p') \<and>
          \<not> parse_error (result p') \<and> walk p' = 2)"
  using lone_quote_accepted by (simp add: parse_string_eval)

end
